theory Spec2Isabelle
  imports Complex_Main
begin

section \<open>Data model of \<open>dist/js/Carousel.js\<close>\<close>

text \<open>
  The carousel is a JavaScript class whose methods mutate \<open>this\<close> and the DOM. The
  embedding passes the object explicitly as a record and records everything done to the
  browser (DOM writes, listeners, timers, observer calls) in a trace, in program order.

  What the embedding takes for granted:
  \<^item> the numeric options and every index passed in are integers, and the boolean options
    are booleans; they are \<open>int\<close> and \<open>bool\<close>. JavaScript computes on doubles, which is
    exact on integers below \<open>2^53\<close>; the one rounded quotient (the active pagination
    button) is exact below \<open>2^52\<close>.
  \<^item> an observer registered from outside does not call back into the carousel and does
    not throw.
  \<^item> \<open>CarouselTouchPlugin\<close>, which is not part of these sources, leaves the carousel's
    fields alone when it is constructed.
  \<^item> the children of the host element hold no element of class \<open>carousel__pagination\<close>.
  \<^item> each breakpoint of \<open>responsive\<close> gives both \<open>slidesToScroll\<close> and \<open>slidesVisible\<close>.
\<close>

type_synonym child = nat
  \<comment> \<open>an opaque handle for one element of \<open>element.children\<close>\<close>

datatype item = Item child | Clone child
  \<comment> \<open>a \<open>carousel__item\<close> div wrapping a child, or \<open>cloneNode(true)\<close> of such a div\<close>

type_synonym button = int
  \<comment> \<open>a pagination button, named by the loop variable \<open>i\<close> its click handler captured\<close>

datatype callback = NavigationCb | PaginationCb "button list" | ExternalCb nat
  \<comment> \<open>the closures pushed by \<open>createNavigation\<close> and \<open>createPagination\<close> (the latter
      captures its \<open>buttons\<close> array), and observers registered from outside\<close>

datatype node =
    HostElement | Root | Container | ItemNode item | ChildNode child
  | NextButton | PrevButton | PaginationNode | PaginationButton button | Window

datatype handler =
    HNext | HPrev | HGotoItem button | HKeyup | HResize | HResetInfinite
  | HAutoplay | HStopAutoplay

datatype effect =
    CreateDiv node string
  | CloneNode item
  | SetAttribute node string string
  | AppendChild node node
  | ClearInnerHTML node
  | AddEventListener node string handler
  | SetWidth node
  | SetTransition string
  | Translate int nat
  | ReadOffsetHeight
  | ClassAdd node string
  | ClassRemove node string
  | ConsoleError
  | SetInterval nat int
  | ClearInterval nat
  | CallObserver callback int int
  | NewTouchPlugin

text \<open>
  \<open>Translate index n\<close> stands for \<open>translate(index * -100 / n)\<close> and \<open>SetWidth\<close> for a
  write of a percentage to \<open>style.width\<close>: both values are floating-point quotients and
  are not evaluated. \<open>CallObserver cb index cur\<close> records that observer \<open>cb\<close> was called
  with argument \<open>index\<close> at a moment when \<open>this.currentItem\<close> was \<open>cur\<close>.
\<close>

datatype error = ConfigError string | TypeError

record options =
  o_slidesToScroll :: int
  o_slidesVisible :: int
  o_loop :: bool
  o_navigation :: bool
  o_pagination :: bool
  o_infinite :: bool
  o_autoplay :: bool
  o_autoplayTimeout :: int
  o_responsive :: "(int \<times> int \<times> int) list option"

text \<open>
  \<open>o_responsive\<close> lists the breakpoints in the order \<open>for ... in\<close> visits them, each as
  (width, slidesToScroll, slidesVisible); \<open>None\<close> is an absent \<open>responsive\<close> option.
\<close>

record user_options =
  u_slidesToScroll :: "int option"
  u_slidesVisible :: "int option"
  u_loop :: "bool option"
  u_navigation :: "bool option"
  u_pagination :: "bool option"
  u_infinite :: "bool option"
  u_autoplay :: "bool option"
  u_autoplayTimeout :: "int option"
  u_responsive :: "(int \<times> int \<times> int) list option"

record carousel =
  options :: options
  offset :: int
  moveCallBacks :: "callback list"
  isMobile :: bool
  fromAction :: bool
  intervalID :: "nat option"
  currentItem :: int
  items :: "item list"
  effects :: "effect list"
  timers :: "nat list"
  nextTimer :: nat
  paginationExists :: bool
  innerWidth :: int

text \<open>
  The last five fields are the browser's side: the trace, the interval timers that are
  currently running and the next fresh timer id, whether \<open>root\<close> already holds a
  \<open>.carousel__pagination\<close> element, and \<open>window.innerWidth\<close>.
\<close>

section \<open>Getters and array reads\<close>

definition slidesToScroll :: "carousel \<Rightarrow> int" where
  "slidesToScroll s = (if isMobile s then 1 else o_slidesToScroll (options s))"

definition slidesVisible :: "carousel \<Rightarrow> int" where
  "slidesVisible s = (if isMobile s then 1 else o_slidesVisible (options s))"

definition items_length :: "carousel \<Rightarrow> int" where
  "items_length s = int (length (items s))"

definition item_undefined :: "carousel \<Rightarrow> int \<Rightarrow> bool" where
  \<comment> \<open>\<open>this.items[k] === undefined\<close>: every stored item is a DOM node\<close>
  "item_undefined s k \<longleftrightarrow> k < 0 \<or> items_length s \<le> k"

section \<open>Moving: \<open>gotoItem\<close>, \<open>next\<close>, \<open>prev\<close>\<close>

definition cpt_forward :: "carousel \<Rightarrow> int" where
  \<comment> \<open>the counter after \<open>for (let i = 1; i <= this.slidesVisible; i++)\<close>\<close>
  "cpt_forward s =
     int (length (filter (\<lambda>i. item_undefined s (currentItem s + slidesToScroll s - 1 + i))
                         [1..slidesVisible s]))"

definition cpt_backward :: "carousel \<Rightarrow> int" where
  \<comment> \<open>the counter after \<open>for (let i = this.slidesToScroll; i > 0; i--)\<close>\<close>
  "cpt_backward s =
     int (length (filter (\<lambda>i. item_undefined s (currentItem s - i))
                         (rev [1..slidesToScroll s])))"

definition adjustIndex :: "carousel \<Rightarrow> int \<Rightarrow> int" where
  \<comment> \<open>first \<open>if / else if\<close> of \<open>gotoItem\<close>: adjust the index if the next or previous
      slides are not enough\<close>
  "adjustIndex s index =
     (if index + slidesVisible s > items_length s \<and> index > currentItem s then
        (let cpt = cpt_forward s in if cpt < slidesToScroll s then index - cpt else index)
      else if index < 0 \<and> index < currentItem s then
        (let cpt = cpt_backward s in if cpt < slidesToScroll s then index + cpt else index)
      else index)"

definition clampIndex :: "carousel \<Rightarrow> int \<Rightarrow> int" where
  \<comment> \<open>second \<open>if / else if\<close> of \<open>gotoItem\<close>\<close>
  "clampIndex s index =
     (if index < 0 then
        (if o_loop (options s) then items_length s - slidesVisible s else currentItem s)
      else if index \<ge> items_length s \<or>
              (item_undefined s (currentItem s + slidesVisible s) \<and> index > currentItem s) then
        (if o_loop (options s) then 0 else currentItem s)
      else index)"

definition activeButton :: "carousel \<Rightarrow> button list \<Rightarrow> int \<Rightarrow> button option" where
  \<comment> \<open>\<open>buttons[Math.round(((index - this.offset) % count) / this.options.slidesToScroll)]\<close>;
      \<open>None\<close> is \<open>undefined\<close>. \<open>%\<close> takes the sign of the dividend and is \<open>NaN\<close> for a zero
      divisor; a division by zero is \<open>NaN\<close> or an infinity; \<open>Math.round\<close> rounds halves up.\<close>
  "activeButton s buttons index =
     (let count = items_length s - 2 * offset s;
          d = o_slidesToScroll (options s)
      in if count = 0 \<or> d = 0 then None
         else
           (let r = sgn (index - offset s) * (\<bar>index - offset s\<bar> mod \<bar>count\<bar>);
                k = (2 * r + d) div (2 * d)
            in if 0 \<le> k \<and> k < int (length buttons) then Some (buttons ! nat k) else None))"

definition classList :: "button option \<Rightarrow> error + button" where
  \<comment> \<open>reading \<open>.classList\<close> of \<open>undefined\<close> throws a \<open>TypeError\<close>\<close>
  "classList b = (case b of None \<Rightarrow> Inl TypeError | Some x \<Rightarrow> Inr x)"

definition paginationCallback :: "carousel \<Rightarrow> button list \<Rightarrow> int \<Rightarrow> error + effect list" where
  \<comment> \<open>the observer registered by \<open>createPagination\<close>\<close>
  "paginationCallback s buttons index =
     (let active = activeButton s buttons index
      in if active \<noteq> None then
           (case classList active of
              Inl e \<Rightarrow> Inl e
            | Inr b \<Rightarrow>
                Inr (map (\<lambda>x. ClassRemove (PaginationButton x) ''carousel__pagination__button--active'')
                         buttons
                     @ [ClassAdd (PaginationButton b) ''carousel__pagination__button--active'']))
         else Inr [])"

definition navigationCallback :: "carousel \<Rightarrow> int \<Rightarrow> effect list" where
  \<comment> \<open>the observer registered by \<open>createNavigation\<close>\<close>
  "navigationCallback s index =
     [if index = 0 then ClassAdd PrevButton ''carousel__prev--hidden''
      else ClassRemove PrevButton ''carousel__prev--hidden'',
      if item_undefined s (currentItem s + slidesVisible s)
      then ClassAdd NextButton ''carousel__next--hidden''
      else ClassRemove NextButton ''carousel__next--hidden'']"

definition call :: "carousel \<Rightarrow> callback \<Rightarrow> int \<Rightarrow> effect list" where
  \<comment> \<open>\<open>cb(index)\<close>. An outside observer is opaque: it is assumed not to call back into the
      carousel. The pagination observer cannot throw (\<open>paginationCallback_never_throws\<close>).\<close>
  "call s cb index =
     CallObserver cb index (currentItem s) #
     (case cb of
        NavigationCb \<Rightarrow> navigationCallback s index
      | PaginationCb buttons \<Rightarrow>
          (case paginationCallback s buttons index of Inl e \<Rightarrow> [] | Inr es \<Rightarrow> es)
      | ExternalCb n \<Rightarrow> [])"

definition forEach_moveCallBacks :: "carousel \<Rightarrow> int \<Rightarrow> carousel" where
  \<comment> \<open>\<open>this.moveCallBacks.forEach((cb) => cb(index))\<close>\<close>
  "forEach_moveCallBacks s index =
     s\<lparr>effects := effects s @ concat (map (\<lambda>cb. call s cb index) (moveCallBacks s))\<rparr>"

definition gotoItem :: "carousel \<Rightarrow> int \<Rightarrow> bool \<Rightarrow> carousel" where
  "gotoItem s index0 animation =
     (let index = clampIndex s (adjustIndex s index0);
          s1 = s\<lparr>effects := effects s
                   @ (if \<not> animation then [SetTransition ''none''] else [])
                   @ [Translate index (length (items s)), ReadOffsetHeight]
                   @ (if \<not> animation then [SetTransition ''''] else [])\<rparr>;
          s2 = s1\<lparr>currentItem := index\<rparr>;
          s3 = forEach_moveCallBacks s2 index
      in s3\<lparr>fromAction := True\<rparr>)"

definition carousel_next :: "carousel \<Rightarrow> carousel" where
  \<comment> \<open>\<open>next()\<close>\<close>
  "carousel_next s = gotoItem s (currentItem s + slidesToScroll s) True"

definition carousel_prev :: "carousel \<Rightarrow> carousel" where
  \<comment> \<open>\<open>prev()\<close>\<close>
  "carousel_prev s = gotoItem s (currentItem s - slidesToScroll s) True"

definition resetInfinite :: "carousel \<Rightarrow> carousel" where
  "resetInfinite s =
     (if \<not> fromAction s then s
      else
        (let s1 =
           (if currentItem s \<le> o_slidesToScroll (options s) then
              gotoItem s (currentItem s + (items_length s - 2 * offset s)) False
            else if currentItem s \<ge> items_length s - offset s then
              gotoItem s (currentItem s - (items_length s - 2 * offset s)) False
            else s)
         in s1\<lparr>fromAction := False\<rparr>))"

definition onMove :: "carousel \<Rightarrow> callback \<Rightarrow> carousel" where
  "onMove s cb = s\<lparr>moveCallBacks := moveCallBacks s @ [cb]\<rparr>"

section \<open>Autoplay\<close>

definition autoplay :: "carousel \<Rightarrow> carousel" where
  \<comment> \<open>\<open>this.intervalID = setInterval(() => this.next(), this.options.autoplayTimeout)\<close>:
      the browser starts a new timer under a fresh id\<close>
  "autoplay s =
     s\<lparr>intervalID := Some (nextTimer s),
       timers := timers s @ [nextTimer s],
       nextTimer := Suc (nextTimer s),
       effects := effects s @ [SetInterval (nextTimer s) (o_autoplayTimeout (options s))]\<rparr>"

definition stopAutoplay :: "carousel \<Rightarrow> carousel" where
  \<comment> \<open>\<open>if (this.intervalID !== null) clearInterval(this.intervalID)\<close>\<close>
  "stopAutoplay s =
     (case intervalID s of
        None \<Rightarrow> s
      | Some t \<Rightarrow> s\<lparr>timers := removeAll t (timers s), effects := effects s @ [ClearInterval t]\<rparr>)"

section \<open>Style, navigation, pagination, resize\<close>

definition setStyle :: "carousel \<Rightarrow> carousel" where
  "setStyle s =
     s\<lparr>effects := effects s @ SetWidth Container # map (\<lambda>it. SetWidth (ItemNode it)) (items s)\<rparr>"

definition createNavigation :: "carousel \<Rightarrow> carousel" where
  "createNavigation s =
     (let s1 = s\<lparr>effects := effects s @
                 [CreateDiv NextButton ''carousel__next'',
                  CreateDiv PrevButton ''carousel__prev'',
                  AppendChild Root NextButton,
                  AppendChild Root PrevButton,
                  AddEventListener NextButton ''click'' HNext,
                  AddEventListener PrevButton ''click'' HPrev]\<rparr>
      in if o_loop (options s) then s1 else onMove s1 NavigationCb)"

partial_function (option) pagination_loop ::
  "int \<Rightarrow> int \<Rightarrow> int \<Rightarrow> button list \<Rightarrow> button list option" where
  \<comment> \<open>\<open>for (let i = 0; i < count; i = i + step) { ...; buttons.push(button) }\<close>, entered at
      \<open>i\<close>; it does not return when \<open>step \<le> 0\<close> and \<open>i < count\<close>\<close>
  "pagination_loop i count step buttons =
     (if i < count then pagination_loop (i + step) count step (buttons @ [i])
      else Some buttons)"

declare pagination_loop.simps [code]

definition createPagination :: "carousel \<Rightarrow> carousel option" where
  \<comment> \<open>\<open>None\<close>: the loop never ends\<close>
  "createPagination s =
     (case pagination_loop 0 (items_length s - 2 * offset s) (o_slidesToScroll (options s)) [] of
        None \<Rightarrow> None
      | Some buttons \<Rightarrow>
          Some (onMove
            (s\<lparr>paginationExists := True,
               effects := effects s
                 @ (if paginationExists s then []
                    else [CreateDiv PaginationNode ''carousel__pagination''])
                 @ [ClearInnerHTML PaginationNode, AppendChild Root PaginationNode]
                 @ concat (map (\<lambda>b. [CreateDiv (PaginationButton b) ''carousel__pagination__button'',
                                       AddEventListener (PaginationButton b) ''click'' (HGotoItem b),
                                       AppendChild PaginationNode (PaginationButton b)])
                               buttons)\<rparr>)
            (PaginationCb buttons)))"

definition apply_breakpoint :: "int \<Rightarrow> options \<Rightarrow> int \<times> int \<times> int \<Rightarrow> options" where
  \<comment> \<open>one round of the \<open>for (const res in this.options.responsive)\<close> loop\<close>
  "apply_breakpoint w opts bp =
     (case bp of (res, sts, sv) \<Rightarrow>
        if w \<ge> res then opts\<lparr>o_slidesToScroll := sts, o_slidesVisible := sv\<rparr> else opts)"

definition onWindowResize :: "carousel \<Rightarrow> carousel option" where
  "onWindowResize s =
     (let s1 = s\<lparr>options := foldl (apply_breakpoint (innerWidth s)) (options s)
                                 (case o_responsive (options s) of None \<Rightarrow> [] | Some bps \<Rightarrow> bps)\<rparr>
      in case (if o_pagination (options s1) then createPagination s1 else Some s1) of
           None \<Rightarrow> None
         | Some s2 \<Rightarrow> (let s3 = setStyle s2 in Some (forEach_moveCallBacks s3 (currentItem s3))))"

section \<open>The constructor\<close>

definition js_slice :: "'a list \<Rightarrow> int \<Rightarrow> int \<Rightarrow> 'a list" where
  \<comment> \<open>\<open>Array.prototype.slice(start, end)\<close>: a negative bound counts from the end\<close>
  "js_slice xs start end =
     (let n = int (length xs);
          k = (if start < 0 then max (n + start) 0 else min start n);
          e = (if end < 0 then max (n + end) 0 else min end n)
      in take (nat (e - k)) (drop (nat k) xs))"

definition clone :: "item \<Rightarrow> item" where
  \<comment> \<open>\<open>item.cloneNode(true)\<close>\<close>
  "clone it = (case it of Item c \<Rightarrow> Clone c | Clone c \<Rightarrow> Clone c)"

definition assign_options :: "user_options \<Rightarrow> options" where
  \<comment> \<open>\<open>Object.assign({}, {defaults}, options)\<close>\<close>
  "assign_options u =
     \<lparr>o_slidesToScroll = (case u_slidesToScroll u of None \<Rightarrow> 1 | Some v \<Rightarrow> v),
      o_slidesVisible = (case u_slidesVisible u of None \<Rightarrow> 1 | Some v \<Rightarrow> v),
      o_loop = (case u_loop u of None \<Rightarrow> False | Some v \<Rightarrow> v),
      o_navigation = (case u_navigation u of None \<Rightarrow> True | Some v \<Rightarrow> v),
      o_pagination = (case u_pagination u of None \<Rightarrow> False | Some v \<Rightarrow> v),
      o_infinite = (case u_infinite u of None \<Rightarrow> False | Some v \<Rightarrow> v),
      o_autoplay = (case u_autoplay u of None \<Rightarrow> False | Some v \<Rightarrow> v),
      o_autoplayTimeout = (case u_autoplayTimeout u of None \<Rightarrow> 2000 | Some v \<Rightarrow> v),
      o_responsive = u_responsive u\<rparr>"

datatype construct_result = Threw error "effect list" | Hangs | Built carousel

text \<open>
  \<open>Threw e es\<close>: the constructor threw \<open>e\<close> after the effects \<open>es\<close>; \<open>Hangs\<close>: it never
  returns; \<open>Built s\<close>: it returned the object \<open>s\<close>.
\<close>

definition initial_fields :: "options \<Rightarrow> int \<Rightarrow> carousel" where
  \<comment> \<open>the assignments from \<open>this.offset = 0\<close> to \<open>this.currentItem = 0\<close>, in a browser
      that has no timer running and no pagination element yet\<close>
  "initial_fields opts w =
     \<lparr>options = opts, offset = 0, moveCallBacks = [], isMobile = False,
      fromAction = False, intervalID = None, currentItem = 0, items = [],
      effects = [], timers = [], nextTimer = 0, paginationExists = False,
      innerWidth = w\<rparr>"

definition wrap_children :: "carousel \<Rightarrow> child list \<Rightarrow> carousel" where
  \<comment> \<open>fields, \<open>root\<close>, \<open>container\<close>, and \<open>this.items = children.map(...)\<close>\<close>
  "wrap_children s children =
     s\<lparr>items := map Item children,
       effects := effects s
         @ [CreateDiv Root ''carousel'',
            CreateDiv Container ''carousel__container'',
            SetAttribute Root ''tabindex'' ''0'',
            AppendChild Root Container,
            AppendChild HostElement Root]
         @ concat (map (\<lambda>c. [CreateDiv (ItemNode (Item c)) ''carousel__item'',
                               AppendChild (ItemNode (Item c)) (ChildNode c),
                               AppendChild Container (ItemNode (Item c))])
                       children)\<rparr>"

definition clone_items :: "carousel \<Rightarrow> nat \<Rightarrow> carousel" where
  \<comment> \<open>the body of \<open>if (this.options.infinite)\<close>; \<open>n\<close> is \<open>children.length\<close>\<close>
  "clone_items s n =
     (let off = o_slidesVisible (options s) + o_slidesToScroll (options s);
          front = js_slice (items s) (items_length s - off) (items_length s);
          back = js_slice (items s) 0 off;
          s1 = s\<lparr>offset := off,
                 items := map clone front @ items s @ map clone back,
                 effects := effects s
                   @ (if off > int n then [ConsoleError] else [])
                   @ map CloneNode front @ map CloneNode back\<rparr>;
          s2 = s1\<lparr>currentItem := offset s1\<rparr>
      in gotoItem s2 (offset s2) True)"

definition register_listeners :: "carousel \<Rightarrow> carousel" where
  \<comment> \<open>from \<open>keyup\<close> to the end of the constructor\<close>
  "register_listeners s =
     (let s1 = s\<lparr>effects := effects s @ [AddEventListener Root ''keyup'' HKeyup]\<rparr>;
          s2 = (if o_infinite (options s1)
                then s1\<lparr>effects := effects s1
                          @ [AddEventListener Container ''transitionend'' HResetInfinite]\<rparr>
                else s1);
          s3 = (if o_autoplay (options s2)
                then (let a = autoplay s2
                      in a\<lparr>effects := effects a
                             @ [AddEventListener Root ''mouseover'' HStopAutoplay,
                                AddEventListener Root ''mouseout'' HAutoplay,
                                AddEventListener Window ''focus'' HAutoplay,
                                AddEventListener Window ''blur'' HStopAutoplay]\<rparr>)
                else s2)
      in s3\<lparr>effects := effects s3 @ [NewTouchPlugin]\<rparr>)"

definition construct :: "child list \<Rightarrow> user_options \<Rightarrow> int \<Rightarrow> construct_result" where
  \<comment> \<open>\<open>new Carousel(element, options)\<close> for an element with the given children, in a window
      of the given inner width. \<open>CarouselTouchPlugin\<close> is not part of these sources; its
      constructor is taken to leave the carousel's fields alone.\<close>
  "construct children u w =
     (let opts = assign_options u
      in if o_loop opts \<and> o_infinite opts then
           Threw (ConfigError ''A carousel can not be both loop and infinite'') []
         else
           (let s0 = initial_fields opts w;
                s1 = wrap_children s0 children;
                s2 = (if o_infinite opts then clone_items s1 (length children) else s1);
                s3 = s2\<lparr>effects := effects s2
                          @ map (\<lambda>it. AppendChild Container (ItemNode it)) (items s2)\<rparr>;
                s4 = setStyle s3;
                s5 = (if o_navigation opts then createNavigation s4 else s4)
            in case (if o_pagination opts then createPagination s5 else Some s5) of
                 None \<Rightarrow> Hangs
               | Some s6 \<Rightarrow>
                   (let s7 = forEach_moveCallBacks s6 (currentItem s6)
                    in case (if o_responsive opts \<noteq> None
                             then map_option
                                    (\<lambda>r. r\<lparr>effects := effects r
                                              @ [AddEventListener Window ''resize'' HResize]\<rparr>)
                                    (onWindowResize s7)
                             else Some s7) of
                         None \<Rightarrow> Hangs
                       | Some s8 \<Rightarrow> Built (register_listeners s8))))"

section \<open>Events and operations\<close>

datatype event =
    KeyUp string | TransitionEnd | MouseOver | MouseOut | WindowFocus | WindowBlur
  | IntervalTick nat | WindowResize int

definition dispatch :: "carousel \<Rightarrow> event \<Rightarrow> carousel option" where
  \<comment> \<open>what the listeners and timers set up by the constructor do; \<open>WindowResize w\<close> is a
      \<open>resize\<close> event of the window with \<open>w\<close> its new inner width; \<open>None\<close>: the listener
      never returns\<close>
  "dispatch s ev =
     (case ev of
        KeyUp k \<Rightarrow>
          if k = ''ArrowRight'' \<or> k = ''Right'' then Some (carousel_next s)
          else if k = ''ArrowLeft'' \<or> k = ''Left'' then Some (carousel_prev s)
          else Some s
      | TransitionEnd \<Rightarrow> if o_infinite (options s) then Some (resetInfinite s) else Some s
      | MouseOver \<Rightarrow> if o_autoplay (options s) then Some (stopAutoplay s) else Some s
      | MouseOut \<Rightarrow> if o_autoplay (options s) then Some (autoplay s) else Some s
      | WindowFocus \<Rightarrow> if o_autoplay (options s) then Some (autoplay s) else Some s
      | WindowBlur \<Rightarrow> if o_autoplay (options s) then Some (stopAutoplay s) else Some s
      | IntervalTick t \<Rightarrow> if t \<in> set (timers s) then Some (carousel_next s) else Some s
      | WindowResize w \<Rightarrow>
          if o_responsive (options s) \<noteq> None then onWindowResize (s\<lparr>innerWidth := w\<rparr>)
          else Some (s\<lparr>innerWidth := w\<rparr>))"

datatype operation =
    Next | Prev | GotoItem int bool | ResetInfinite | OnMove callback
  | Autoplay | StopAutoplay | OnWindowResize | Dispatch event

definition apply_operation :: "carousel \<Rightarrow> operation \<Rightarrow> carousel option" where
  \<comment> \<open>a call of a method from outside, or an event\<close>
  "apply_operation s op =
     (case op of
        Next \<Rightarrow> Some (carousel_next s)
      | Prev \<Rightarrow> Some (carousel_prev s)
      | GotoItem index animation \<Rightarrow> Some (gotoItem s index animation)
      | ResetInfinite \<Rightarrow> Some (resetInfinite s)
      | OnMove cb \<Rightarrow> Some (onMove s cb)
      | Autoplay \<Rightarrow> Some (autoplay s)
      | StopAutoplay \<Rightarrow> Some (stopAutoplay s)
      | OnWindowResize \<Rightarrow> onWindowResize s
      | Dispatch ev \<Rightarrow> dispatch s ev)"

fun run :: "carousel \<Rightarrow> operation list \<Rightarrow> carousel option" where
  \<comment> \<open>the operations one after the other; \<open>None\<close> when one of them never returns\<close>
  "run s [] = Some s"
| "run s (op # ops) =
     (case apply_operation s op of None \<Rightarrow> None | Some s' \<Rightarrow> run s' ops)"

definition observer_calls :: "effect list \<Rightarrow> (callback \<times> int \<times> int) list" where
  \<comment> \<open>the observer calls of a trace, in order\<close>
  "observer_calls es =
     concat (map (\<lambda>e. case e of CallObserver cb i c \<Rightarrow> [(cb, i, c)] | _ \<Rightarrow> []) es)"

definition new_effects :: "carousel \<Rightarrow> carousel \<Rightarrow> effect list" where
  \<comment> \<open>what a step from \<open>s\<close> to \<open>s'\<close> appended to the trace\<close>
  "new_effects s s' = drop (length (effects s)) (effects s')"

section \<open>Reading the outcome of a run\<close>

definition no_options :: user_options where
  \<comment> \<open>the options object \<open>{}\<close>\<close>
  "no_options =
     \<lparr>u_slidesToScroll = None, u_slidesVisible = None, u_loop = None, u_navigation = None,
      u_pagination = None, u_infinite = None, u_autoplay = None, u_autoplayTimeout = None,
      u_responsive = None\<rparr>"

definition built :: "construct_result \<Rightarrow> carousel option" where
  "built r = (case r of Built s \<Rightarrow> Some s | Threw e es \<Rightarrow> None | Hangs \<Rightarrow> None)"

definition after :: "construct_result \<Rightarrow> operation list \<Rightarrow> carousel option" where
  \<comment> \<open>the object after construction and then the given operations\<close>
  "after r ops = (case built r of None \<Rightarrow> None | Some s \<Rightarrow> run s ops)"

definition in_range :: "carousel \<Rightarrow> bool" where
  \<comment> \<open>\<open>0 <= currentItem < items.length\<close>\<close>
  "in_range s \<longleftrightarrow> 0 \<le> currentItem s \<and> currentItem s < items_length s"

definition rejected :: "carousel \<Rightarrow> int \<Rightarrow> bool" where
  \<comment> \<open>\<open>gotoItem(index)\<close> takes one of its two \<open>index = this.currentItem\<close> branches\<close>
  "rejected s index \<longleftrightarrow>
     \<not> o_loop (options s) \<and>
     (adjustIndex s index < 0 \<or> adjustIndex s index \<ge> items_length s \<or>
      (item_undefined s (currentItem s + slidesVisible s) \<and> adjustIndex s index > currentItem s))"

definition same_layout :: "carousel \<Rightarrow> carousel \<Rightarrow> bool" where
  \<comment> \<open>two states with the same item list, options, mobile flag and offset\<close>
  "same_layout s s' \<longleftrightarrow>
     items s' = items s \<and> options s' = options s \<and> isMobile s' = isMobile s \<and> offset s' = offset s"

definition carousel6 :: carousel where
  \<comment> \<open>six children, \<open>{slidesToScroll: 2, slidesVisible: 2}\<close>\<close>
  "carousel6 =
     the (built (construct [0, 1, 2, 3, 4, 5]
                  (no_options\<lparr>u_slidesToScroll := Some 2, u_slidesVisible := Some 2\<rparr>) 1000))"

definition carousel5_loop_built :: construct_result where
  \<comment> \<open>five children, \<open>{slidesToScroll: 2, slidesVisible: 2, loop: true}\<close>\<close>
  "carousel5_loop_built =
     construct [0, 1, 2, 3, 4]
       (no_options\<lparr>u_slidesToScroll := Some 2, u_slidesVisible := Some 2, u_loop := Some True\<rparr>)
       1000"

definition carousel5_loop :: carousel where
  "carousel5_loop = the (built carousel5_loop_built)"

definition carousel6_infinite :: carousel where
  \<comment> \<open>six children, \<open>{infinite: true}\<close>\<close>
  "carousel6_infinite =
     the (built (construct [0, 1, 2, 3, 4, 5] (no_options\<lparr>u_infinite := Some True\<rparr>) 1000))"

definition created_buttons :: "effect list \<Rightarrow> button list" where
  \<comment> \<open>the pagination buttons a trace creates, in order\<close>
  "created_buttons es =
     concat (map (\<lambda>e. case e of
                         CreateDiv n c \<Rightarrow> (case n of PaginationButton b \<Rightarrow> [b] | _ \<Rightarrow> [])
                       | _ \<Rightarrow> []) es)"

definition spec_pagination_count :: "carousel \<Rightarrow> int" where
  \<comment> \<open>the count of controls in the words of the specification:
      \<open>ceil((length - 2*offset) / slidesToScroll)\<close>\<close>
  "spec_pagination_count s =
     \<lceil>real_of_int (items_length s - 2 * offset s) / real_of_int (o_slidesToScroll (options s))\<rceil>"

definition carousel1_infinite_built :: construct_result where
  \<comment> \<open>one child, \<open>{infinite: true, pagination: true}\<close>\<close>
  "carousel1_infinite_built =
     construct [0] (no_options\<lparr>u_infinite := Some True, u_pagination := Some True\<rparr>) 1000"

definition carousel3_autoplay_built :: construct_result where
  \<comment> \<open>three children, \<open>{autoplay: true}\<close>\<close>
  "carousel3_autoplay_built =
     construct [0, 1, 2] (no_options\<lparr>u_autoplay := Some True\<rparr>) 1000"

definition infinite_layout :: "carousel \<Rightarrow> bool" where
  \<comment> \<open>what the constructor sets up for \<open>infinite: true\<close> over enough children, and what
      moves keep: the offset of the options, at least \<open>2 * offset\<close> items, the index in range\<close>
  "infinite_layout s \<longleftrightarrow>
     offset s = o_slidesVisible (options s) + o_slidesToScroll (options s) \<and>
     1 \<le> o_slidesVisible (options s) \<and> 1 \<le> o_slidesToScroll (options s) \<and>
     2 * offset s \<le> items_length s \<and>
     0 \<le> currentItem s \<and> currentItem s < items_length s"

definition breakpoints :: "carousel \<Rightarrow> (int \<times> int \<times> int) list" where
  \<comment> \<open>the entries of \<open>this.options.responsive\<close>, none when the option is absent\<close>
  "breakpoints s = (case o_responsive (options s) of None \<Rightarrow> [] | Some bps \<Rightarrow> bps)"

definition carousel5_responsive :: carousel where
  \<comment> \<open>five children,
      \<open>{slidesToScroll: 2, slidesVisible: 2, loop: true, pagination: true,
        responsive: {800: {slidesToScroll: 1, slidesVisible: 3}}}\<close>, in a window 500 wide\<close>
  "carousel5_responsive =
     the (built (construct [0, 1, 2, 3, 4]
       (no_options\<lparr>u_slidesToScroll := Some 2, u_slidesVisible := Some 2, u_loop := Some True,
                    u_pagination := Some True, u_responsive := Some [(800, 1, 3)]\<rparr>)
       500))"

definition carousel6_wide_built :: construct_result where
  \<comment> \<open>six children,
      \<open>{infinite: true, responsive: {0: {slidesToScroll: 5, slidesVisible: 1}}}\<close>\<close>
  "carousel6_wide_built =
     construct [0, 1, 2, 3, 4, 5]
       (no_options\<lparr>u_infinite := Some True, u_responsive := Some [(0, 5, 1)]\<rparr>) 1000"

definition carousel1_bare_built :: construct_result where
  \<comment> \<open>one child, \<open>{infinite: true}\<close>\<close>
  "carousel1_bare_built = construct [0] (no_options\<lparr>u_infinite := Some True\<rparr>) 1000"

definition is_resize :: "operation \<Rightarrow> bool" where
  \<comment> \<open>the operations that run \<open>onWindowResize\<close>\<close>
  "is_resize op =
     (case op of
        OnWindowResize \<Rightarrow> True
      | Dispatch ev \<Rightarrow> (case ev of WindowResize w \<Rightarrow> True | _ \<Rightarrow> False)
      | _ \<Rightarrow> False)"

definition window_fits :: "carousel \<Rightarrow> bool" where
  \<comment> \<open>in loop mode, \<open>1 <= slidesVisible <= items.length\<close>, now and under every breakpoint\<close>
  "window_fits s \<longleftrightarrow>
     (o_loop (options s) \<longrightarrow>
        1 \<le> slidesVisible s \<and> slidesVisible s \<le> items_length s \<and>
        (\<forall>bp\<in>set (breakpoints s). 1 \<le> snd (snd bp) \<and> snd (snd bp) \<le> items_length s))"

definition steps_positive :: "carousel \<Rightarrow> bool" where
  \<comment> \<open>with pagination on, \<open>slidesToScroll\<close> is positive, now and under every breakpoint\<close>
  "steps_positive s \<longleftrightarrow>
     (o_pagination (options s) \<longrightarrow>
        0 < o_slidesToScroll (options s) \<and> (\<forall>bp\<in>set (breakpoints s). 0 < fst (snd bp)))"

section \<open>Properties\<close>

subsection \<open>What \<open>gotoItem\<close> changes\<close>

lemma gotoItem_fields [simp]:
  "currentItem (gotoItem s i a) = clampIndex s (adjustIndex s i)"
  "items (gotoItem s i a) = items s"
  "options (gotoItem s i a) = options s"
  "offset (gotoItem s i a) = offset s"
  "isMobile (gotoItem s i a) = isMobile s"
  "moveCallBacks (gotoItem s i a) = moveCallBacks s"
  "fromAction (gotoItem s i a) = True"
  "intervalID (gotoItem s i a) = intervalID s"
  "timers (gotoItem s i a) = timers s"
  "nextTimer (gotoItem s i a) = nextTimer s"
  by (simp_all add: gotoItem_def forEach_moveCallBacks_def Let_def)

lemma getters_gotoItem [simp]:
  "slidesToScroll (gotoItem s i a) = slidesToScroll s"
  "slidesVisible (gotoItem s i a) = slidesVisible s"
  "items_length (gotoItem s i a) = items_length s"
  by (simp_all add: slidesToScroll_def slidesVisible_def items_length_def)

lemma clampIndex_in_range:
  assumes "in_range s"
    and "o_loop (options s) \<longrightarrow> 1 \<le> slidesVisible s \<and> slidesVisible s \<le> items_length s"
  shows "0 \<le> clampIndex s i \<and> clampIndex s i < items_length s"
  using assms by (auto simp: clampIndex_def in_range_def)

lemma gotoItem_in_range:
  assumes "in_range s"
    and "o_loop (options s) \<longrightarrow> 1 \<le> slidesVisible s \<and> slidesVisible s \<le> items_length s"
  shows "in_range (gotoItem s i a)"
  using clampIndex_in_range [OF assms, of "adjustIndex s i"] by (simp add: in_range_def)

lemma same_layout_getters:
  assumes "same_layout s s'"
  shows "slidesVisible s' = slidesVisible s" "slidesToScroll s' = slidesToScroll s"
    "items_length s' = items_length s"
  using assms by (simp_all add: same_layout_def slidesVisible_def slidesToScroll_def items_length_def)

lemma same_layout_gotoItem: "same_layout s (gotoItem s i a)"
  by (simp add: same_layout_def)

lemma resetInfinite_layout: "same_layout s (resetInfinite s)"
  by (simp add: same_layout_def resetInfinite_def Let_def)

lemma resetInfinite_in_range:
  assumes "in_range s"
    and "o_loop (options s) \<longrightarrow> 1 \<le> slidesVisible s \<and> slidesVisible s \<le> items_length s"
  shows "in_range (resetInfinite s)"
proof -
  have "in_range (t\<lparr>fromAction := False\<rparr>) = in_range t" for t
    by (simp add: in_range_def items_length_def)
  then show ?thesis
    using assms gotoItem_in_range [OF assms] by (simp add: resetInfinite_def Let_def)
qed

subsection \<open>Observers\<close>

lemma observer_calls_append [simp]:
  "observer_calls (es @ fs) = observer_calls es @ observer_calls fs"
  by (simp add: observer_calls_def)

lemma observer_calls_simps [simp]:
  "observer_calls [] = []"
  "observer_calls (CallObserver cb i c # es) = (cb, i, c) # observer_calls es"
  "observer_calls (ClassAdd n x # es) = observer_calls es"
  "observer_calls (ClassRemove n x # es) = observer_calls es"
  "observer_calls (SetTransition x # es) = observer_calls es"
  "observer_calls (Translate j k # es) = observer_calls es"
  "observer_calls (ReadOffsetHeight # es) = observer_calls es"
  by (simp_all add: observer_calls_def)

lemma observer_calls_ClassRemove [simp]:
  "observer_calls (map (\<lambda>x. ClassRemove (f x) c) bs) = []"
  by (induction bs) simp_all

lemma observer_calls_call [simp]:
  "observer_calls (call s cb i) = [(cb, i, currentItem s)]"
proof (cases cb)
  case NavigationCb
  then show ?thesis by (simp add: call_def navigationCallback_def)
next
  case (PaginationCb bs)
  then show ?thesis
    by (simp add: call_def paginationCallback_def classList_def Let_def split: option.splits)
next
  case (ExternalCb n)
  then show ?thesis by (simp add: call_def)
qed

lemma observer_calls_forEach:
  "observer_calls (concat (map (\<lambda>cb. call s cb i) cbs)) = map (\<lambda>cb. (cb, i, currentItem s)) cbs"
  by (induction cbs) simp_all

lemma new_effects_gotoItem:
  "observer_calls (new_effects s (gotoItem s i a)) =
     map (\<lambda>cb. (cb, clampIndex s (adjustIndex s i), clampIndex s (adjustIndex s i)))
         (moveCallBacks s)"
  by (simp add: new_effects_def gotoItem_def forEach_moveCallBacks_def Let_def
      observer_calls_forEach)

lemma foldl_onMove [simp]:
  "moveCallBacks (foldl onMove s cbs) = moveCallBacks s @ cbs"
  "effects (foldl onMove s cbs) = effects s"
  "currentItem (foldl onMove s cbs) = currentItem s"
  by (induction cbs arbitrary: s) (simp_all add: onMove_def)

text \<open>
  C9. Whatever observers were registered with \<open>onMove\<close>, in whatever state, a \<open>gotoItem\<close>
  call invokes, before it returns, exactly the registered observers, each once, in
  registration order, each with the final index as argument and at a moment when
  \<open>currentItem\<close> already holds that final index.
\<close>

theorem observers_in_registration_order:
  "observer_calls (new_effects (foldl onMove s cbs) (gotoItem (foldl onMove s cbs) index animation)) =
     map (\<lambda>cb. (cb, currentItem (gotoItem (foldl onMove s cbs) index animation),
                    currentItem (gotoItem (foldl onMove s cbs) index animation)))
         (moveCallBacks s @ cbs)"
  by (simp add: new_effects_gotoItem)

theorem observers_in_registration_order_witness:
  "observer_calls
     (new_effects (foldl onMove carousel6 [ExternalCb 7, ExternalCb 3])
        (gotoItem (foldl onMove carousel6 [ExternalCb 7, ExternalCb 3]) 2 True)) =
   [(NavigationCb, 2, 2), (ExternalCb 7, 2, 2), (ExternalCb 3, 2, 2)]"
proof -
  have c: "currentItem (gotoItem (foldl onMove carousel6 [ExternalCb 7, ExternalCb 3]) 2 True) = 2"
    by code_simp
  have m: "moveCallBacks carousel6 = [NavigationCb]"
    by code_simp
  show ?thesis
    using observers_in_registration_order [of carousel6 "[ExternalCb 7, ExternalCb 3]" 2 True]
    by (simp only: c m) simp
qed

text \<open>
  C10. Every \<open>gotoItem\<close> call sets \<open>fromAction\<close> and invokes every registered observer, in
  order, with the final index. This is so also when the move is rejected (the carousel
  does not loop and \<open>gotoItem\<close> falls back to \<open>this.currentItem\<close>): then the final index is
  the unchanged \<open>currentItem\<close>.
\<close>

theorem rejected_move_still_notifies:
  "fromAction (gotoItem s index animation) \<and>
   observer_calls (new_effects s (gotoItem s index animation)) =
     map (\<lambda>cb. (cb, currentItem (gotoItem s index animation),
                    currentItem (gotoItem s index animation)))
         (moveCallBacks s) \<and>
   (rejected s index \<longrightarrow> currentItem (gotoItem s index animation) = currentItem s)"
proof -
  have "rejected s index \<longrightarrow> clampIndex s (adjustIndex s index) = currentItem s"
    by (auto simp: rejected_def clampIndex_def)
  then show ?thesis by (simp add: new_effects_gotoItem)
qed

theorem rejected_move_still_notifies_witness:
  "rejected (carousel_next (carousel_next carousel6)) 6 \<and>
   currentItem (gotoItem (carousel_next (carousel_next carousel6)) 6 True) = 4 \<and>
   observer_calls (new_effects (carousel_next (carousel_next carousel6))
                     (gotoItem (carousel_next (carousel_next carousel6)) 6 True)) = [(NavigationCb, 4, 4)] \<and>
   fromAction (gotoItem (carousel_next (carousel_next carousel6)) 6 True)"
proof -
  have h: "rejected (carousel_next (carousel_next carousel6)) 6" by code_simp
  have c: "currentItem (carousel_next (carousel_next carousel6)) = 4" by code_simp
  have m: "moveCallBacks (carousel_next (carousel_next carousel6)) = [NavigationCb]" by code_simp
  show ?thesis
    using h rejected_move_still_notifies [of "carousel_next (carousel_next carousel6)" 6 True]
    by (simp only: c m) simp
qed

subsection \<open>The constructor\<close>

text \<open>
  C4. Constructing with both \<open>loop: true\<close> and \<open>infinite: true\<close> always throws, and the
  trace at the throw is empty: nothing was created, appended or registered before it.
\<close>

theorem loop_and_infinite_throws:
  assumes "u_loop u = Some True" and "u_infinite u = Some True"
  shows "construct children u w =
           Threw (ConfigError ''A carousel can not be both loop and infinite'') []"
  using assms by (simp add: construct_def assign_options_def)

theorem loop_and_infinite_throws_witness:
  "construct [0, 1, 2] (no_options\<lparr>u_loop := Some True, u_infinite := Some True\<rparr>) 1000 =
     Threw (ConfigError ''A carousel can not be both loop and infinite'') []"
  using loop_and_infinite_throws
    [of "no_options\<lparr>u_loop := Some True, u_infinite := Some True\<rparr>" "[0, 1, 2]" 1000]
  by (simp add: no_options_def)

text \<open>
  The pagination loop returns whenever its step is positive, and then it has pushed one
  button for each \<open>i = 0, step, 2 * step, ...\<close> below \<open>count\<close>.
\<close>

lemma pagination_loop_closed:
  assumes "0 < step"
  shows "pagination_loop i count step acc =
           Some (acc @ map (\<lambda>k. i + int k * step) [0..<nat (- ((i - count) div step))])"
  using assms
proof (induction "nat (count - i)" arbitrary: i acc rule: less_induct)
  case less
  show ?case
  proof (cases "i < count")
    case False
    then have "0 \<le> (i - count) div step"
      using less.prems by (simp add: pos_imp_zdiv_nonneg_iff)
    then show ?thesis
      using False by (subst pagination_loop.simps) simp
  next
    case True
    let ?m = "nat (- ((i - count) div step))"
    have d: "(i + step - count) div step = (i - count) div step + 1"
    proof -
      have "i + step - count = (i - count) + step" by simp
      then show ?thesis using less.prems by (simp only: div_add_self2)
    qed
    have neg: "(i - count) div step < 0"
      using True less.prems by (simp add: div_neg_pos_less0)
    then obtain m' where m: "?m = Suc m'"
      by (cases ?m) auto
    have m': "nat (- ((i + step - count) div step)) = m'"
      using m d by simp
    have "nat (count - (i + step)) < nat (count - i)"
      using True less.prems by simp
    from less.hyps [OF this less.prems, of "acc @ [i]"]
    have "pagination_loop (i + step) count step (acc @ [i]) =
            Some (acc @ [i] @ map (\<lambda>k. i + step + int k * step) [0..<m'])"
      by (simp add: m')
    moreover have "map (\<lambda>k. i + int k * step) [0..<Suc m'] =
        i # map (\<lambda>k. i + step + int k * step) [0..<m']"
      by (simp add: upt_conv_Cons map_Suc_upt [symmetric] algebra_simps del: upt_Suc)
    ultimately show ?thesis
      using True by (subst pagination_loop.simps) (simp add: m)
  qed
qed

lemma pagination_loop_returns:
  "0 < step \<Longrightarrow> \<exists>bs. pagination_loop i count step acc = Some bs"
  by (simp add: pagination_loop_closed)

lemma createPagination_returns:
  assumes "0 < o_slidesToScroll (options s)"
  shows "\<exists>s'. createPagination s = Some s'"
  using pagination_loop_returns [OF assms] 
  by (simp add: createPagination_def split: option.splits)

lemma createPagination_result:
  assumes "createPagination s = Some s'"
  shows "same_layout s s'" "currentItem s' = currentItem s" "fromAction s' = fromAction s"
    "timers s' = timers s" "nextTimer s' = nextTimer s" "intervalID s' = intervalID s"
    "innerWidth s' = innerWidth s"
  using assms
  by (auto simp: createPagination_def same_layout_def onMove_def split: option.splits)

lemma forEach_moveCallBacks_fields [simp]:
  "currentItem (forEach_moveCallBacks s i) = currentItem s"
  "items (forEach_moveCallBacks s i) = items s"
  "options (forEach_moveCallBacks s i) = options s"
  "offset (forEach_moveCallBacks s i) = offset s"
  "isMobile (forEach_moveCallBacks s i) = isMobile s"
  "fromAction (forEach_moveCallBacks s i) = fromAction s"
  "timers (forEach_moveCallBacks s i) = timers s"
  "nextTimer (forEach_moveCallBacks s i) = nextTimer s"
  "intervalID (forEach_moveCallBacks s i) = intervalID s"
  by (simp_all add: forEach_moveCallBacks_def)

lemma setStyle_fields [simp]:
  "currentItem (setStyle s) = currentItem s"
  "items (setStyle s) = items s"
  "options (setStyle s) = options s"
  "offset (setStyle s) = offset s"
  "isMobile (setStyle s) = isMobile s"
  "fromAction (setStyle s) = fromAction s"
  "timers (setStyle s) = timers s"
  "nextTimer (setStyle s) = nextTimer s"
  "intervalID (setStyle s) = intervalID s"
  by (simp_all add: setStyle_def)

lemma createNavigation_fields [simp]:
  "currentItem (createNavigation s) = currentItem s"
  "items (createNavigation s) = items s"
  "options (createNavigation s) = options s"
  "offset (createNavigation s) = offset s"
  "isMobile (createNavigation s) = isMobile s"
  "fromAction (createNavigation s) = fromAction s"
  "timers (createNavigation s) = timers s"
  "nextTimer (createNavigation s) = nextTimer s"
  "intervalID (createNavigation s) = intervalID s"
  by (simp_all add: createNavigation_def onMove_def Let_def)

lemma register_listeners_fields [simp]:
  "currentItem (register_listeners s) = currentItem s"
  "items (register_listeners s) = items s"
  "options (register_listeners s) = options s"
  "offset (register_listeners s) = offset s"
  "isMobile (register_listeners s) = isMobile s"
  "fromAction (register_listeners s) = fromAction s"
  by (simp_all add: register_listeners_def autoplay_def Let_def)

lemma wrap_children_fields [simp]:
  "currentItem (wrap_children s cs) = currentItem s"
  "items (wrap_children s cs) = map Item cs"
  "options (wrap_children s cs) = options s"
  "offset (wrap_children s cs) = offset s"
  "isMobile (wrap_children s cs) = isMobile s"
  "fromAction (wrap_children s cs) = fromAction s"
  "moveCallBacks (wrap_children s cs) = moveCallBacks s"
  by (simp_all add: wrap_children_def)

text \<open>Without \<open>infinite\<close> and \<open>responsive\<close>, the constructor returns an object on the
  first item whenever the pagination loop has a positive step.\<close>

lemma construct_plain:
  assumes "\<not> o_infinite (assign_options u)" and "u_responsive u = None"
    and "o_pagination (assign_options u) \<longrightarrow> 0 < o_slidesToScroll (assign_options u)"
  shows "\<exists>s. construct children u w = Built s \<and> currentItem s = 0 \<and>
           items s = map Item children \<and> options s = assign_options u \<and> \<not> isMobile s \<and>
           offset s = 0"
proof -
  let ?opts = "assign_options u"
  let ?s0 = "initial_fields ?opts w"
  let ?s3 = "(wrap_children ?s0 children)\<lparr>effects := effects (wrap_children ?s0 children)
               @ map (\<lambda>it. AppendChild Container (ItemNode it)) (items (wrap_children ?s0 children))\<rparr>"
  let ?s5 = "if o_navigation ?opts then createNavigation (setStyle ?s3) else setStyle ?s3"
  have r: "o_responsive ?opts = None"
    using assms(2) by (simp add: assign_options_def)
  have s5: "currentItem ?s5 = 0" "items ?s5 = map Item children" "options ?s5 = ?opts"
    "\<not> isMobile ?s5" "offset ?s5 = 0"
    by (simp_all add: initial_fields_def)
  show ?thesis
  proof (cases "o_pagination ?opts")
    case False
    then show ?thesis
      using assms(1) r s5 by (simp add: construct_def Let_def)
  next
    case True
    then have "0 < o_slidesToScroll (options ?s5)"
      using assms(3) s5(3) by simp
    from createPagination_returns [OF this] obtain s6 where s6: "createPagination ?s5 = Some s6"
      by blast
    from createPagination_result [OF s6] s5
    have "currentItem s6 = 0" "items s6 = map Item children" "options s6 = ?opts"
      "\<not> isMobile s6" "offset s6 = 0"
      by (simp_all add: same_layout_def)
    then show ?thesis
      using assms(1) r True s6 by (simp add: construct_def Let_def)
  qed
qed

subsection \<open>Six items, two visible, two scrolled\<close>

lemma next_of_six:
  assumes "items_length s = 6" and "slidesVisible s = 2" and "slidesToScroll s = 2"
    and "\<not> o_loop (options s)"
  shows "currentItem s = 0 \<Longrightarrow> currentItem (carousel_next s) = 2"
    and "currentItem s = 2 \<Longrightarrow> currentItem (carousel_next s) = 4"
    and "currentItem s = 4 \<Longrightarrow> currentItem (carousel_next s) = 4"
  using assms
  by (simp_all add: carousel_next_def adjustIndex_def clampIndex_def item_undefined_def
      cpt_forward_def)

lemma next_keeps_six:
  assumes "items_length s = 6" and "slidesVisible s = 2" and "slidesToScroll s = 2"
    and "\<not> o_loop (options s)"
  shows "items_length (carousel_next s) = 6 \<and> slidesVisible (carousel_next s) = 2 \<and>
         slidesToScroll (carousel_next s) = 2 \<and> \<not> o_loop (options (carousel_next s))"
  using assms by (simp add: carousel_next_def)

lemma next_stays_at_four:
  assumes "items_length s = 6" and "slidesVisible s = 2" and "slidesToScroll s = 2"
    and "\<not> o_loop (options s)" and "currentItem s = 4"
  shows "currentItem ((carousel_next ^^ k) s) = 4 \<and> items_length ((carousel_next ^^ k) s) = 6 \<and>
         slidesVisible ((carousel_next ^^ k) s) = 2 \<and> slidesToScroll ((carousel_next ^^ k) s) = 2 \<and>
         \<not> o_loop (options ((carousel_next ^^ k) s))"
proof (induction k)
  case 0
  then show ?case using assms by simp
next
  case (Suc k)
  let ?t = "(carousel_next ^^ k) s"
  from Suc have t: "items_length ?t = 6" "slidesVisible ?t = 2" "slidesToScroll ?t = 2"
    "\<not> o_loop (options ?t)" "currentItem ?t = 4"
    by simp_all
  show ?case
    using next_of_six(3) [OF t(1-4) t(5)] next_keeps_six [OF t(1-4)] by simp
qed

text \<open>
  C6. Over six children with \<open>slidesVisible = 2\<close>, \<open>slidesToScroll = 2\<close>, no \<open>loop\<close>, no
  \<open>infinite\<close> (and no \<open>responsive\<close> table), whatever the other options, the constructor
  returns an object with \<open>currentItem = 0\<close>; \<open>next()\<close> moves to 2, then to 4; the third
  \<open>next()\<close> leaves 4, and so does every later one.
\<close>

theorem six_items_scenario:
  assumes "length children = 6"
    and "u_slidesToScroll u = Some 2" and "u_slidesVisible u = Some 2"
    and "u_loop u \<noteq> Some True" and "u_infinite u \<noteq> Some True" and "u_responsive u = None"
  shows "\<exists>s. construct children u w = Built s \<and>
           currentItem s = 0 \<and>
           currentItem (carousel_next s) = 2 \<and>
           currentItem (carousel_next (carousel_next s)) = 4 \<and>
           currentItem (carousel_next (carousel_next (carousel_next s))) = 4 \<and>
           (\<forall>k. currentItem ((carousel_next ^^ (k + 2)) s) = 4)"
proof -
  have o: "\<not> o_infinite (assign_options u)" "\<not> o_loop (assign_options u)"
    "o_slidesToScroll (assign_options u) = 2" "o_slidesVisible (assign_options u) = 2"
    using assms(2-5) by (auto simp: assign_options_def split: option.splits)
  from construct_plain [OF o(1) assms(6), of children w] o(3)
  obtain s where s: "construct children u w = Built s" "currentItem s = 0"
    "items s = map Item children" "options s = assign_options u" "\<not> isMobile s"
    by auto
  have six: "items_length s = 6" "slidesVisible s = 2" "slidesToScroll s = 2"
    "\<not> o_loop (options s)"
    using s(3-5) o assms(1) by (simp_all add: items_length_def slidesVisible_def slidesToScroll_def)
  let ?s1 = "carousel_next s"
  let ?s2 = "carousel_next ?s1"
  have c1: "currentItem ?s1 = 2"
    using next_of_six(1) [OF six s(2)] .
  have six1: "items_length ?s1 = 6" "slidesVisible ?s1 = 2" "slidesToScroll ?s1 = 2"
    "\<not> o_loop (options ?s1)"
    using next_keeps_six [OF six] by simp_all
  have c2: "currentItem ?s2 = 4"
    using next_of_six(2) [OF six1 c1] .
  have six2: "items_length ?s2 = 6" "slidesVisible ?s2 = 2" "slidesToScroll ?s2 = 2"
    "\<not> o_loop (options ?s2)"
    using next_keeps_six [OF six1] by simp_all
  have c3: "currentItem (carousel_next ?s2) = 4"
    using next_of_six(3) [OF six2 c2] .
  have "currentItem ((carousel_next ^^ (k + 2)) s) = 4" for k
  proof -
    have "(carousel_next ^^ (k + 2)) s = (carousel_next ^^ k) ?s2"
      by (simp only: funpow_add numeral_2_eq_2 funpow.simps o_apply id_apply)
    then show ?thesis
      using next_stays_at_four [OF six2 c2, of k] by simp
  qed
  with s(1,2) c1 c2 c3 show ?thesis by blast
qed

theorem six_items_scenario_witness:
  "\<exists>s. construct [0, 1, 2, 3, 4, 5]
          (no_options\<lparr>u_slidesToScroll := Some 2, u_slidesVisible := Some 2\<rparr>) 1000 = Built s \<and>
        currentItem s = 0 \<and>
        currentItem (carousel_next s) = 2 \<and>
        currentItem (carousel_next (carousel_next s)) = 4 \<and>
        currentItem (carousel_next (carousel_next (carousel_next s))) = 4 \<and>
        (\<forall>k. currentItem ((carousel_next ^^ (k + 2)) s) = 4)"
  using six_items_scenario
    [of "[0, 1, 2, 3, 4, 5]" "no_options\<lparr>u_slidesToScroll := Some 2, u_slidesVisible := Some 2\<rparr>"
        1000]
  by (simp add: no_options_def)

subsection \<open>Resizing and cloning\<close>

lemma foldl_apply_breakpoint_flags [simp]:
  "o_loop (foldl (apply_breakpoint w) opts bps) = o_loop opts"
  "o_pagination (foldl (apply_breakpoint w) opts bps) = o_pagination opts"
  "o_infinite (foldl (apply_breakpoint w) opts bps) = o_infinite opts"
  "o_autoplay (foldl (apply_breakpoint w) opts bps) = o_autoplay opts"
  "o_navigation (foldl (apply_breakpoint w) opts bps) = o_navigation opts"
  "o_responsive (foldl (apply_breakpoint w) opts bps) = o_responsive opts"
  by (induction bps arbitrary: opts; simp add: apply_breakpoint_def split: prod.splits)+

lemma foldl_apply_breakpoint_positive:
  assumes "0 < o_slidesToScroll opts" and "\<forall>bp\<in>set bps. 0 < fst (snd bp)"
  shows "0 < o_slidesToScroll (foldl (apply_breakpoint w) opts bps)"
  using assms
  by (induction bps arbitrary: opts) (auto simp: apply_breakpoint_def split: prod.splits)

lemma onWindowResize_result:
  assumes "onWindowResize s = Some s'"
  shows "items s' = items s" "offset s' = offset s" "currentItem s' = currentItem s"
    "isMobile s' = isMobile s" "o_loop (options s') = o_loop (options s)"
    "o_infinite (options s') = o_infinite (options s)"
    "o_autoplay (options s') = o_autoplay (options s)"
    "fromAction s' = fromAction s"
proof -
  let ?s1 = "s\<lparr>options := foldl (apply_breakpoint (innerWidth s)) (options s)
                 (case o_responsive (options s) of None \<Rightarrow> [] | Some bps \<Rightarrow> bps)\<rparr>"
  obtain s2 where s2: "(if o_pagination (options ?s1) then createPagination ?s1 else Some ?s1) = Some s2"
    and s': "s' = forEach_moveCallBacks (setStyle s2) (currentItem (setStyle s2))"
    using assms by (auto simp: onWindowResize_def Let_def split: option.splits)
  have k: "same_layout ?s1 s2 \<and> currentItem s2 = currentItem ?s1 \<and> fromAction s2 = fromAction ?s1"
  proof (cases "o_pagination (options ?s1)")
    case True
    then have "createPagination ?s1 = Some s2" using s2 by (simp only: if_True)
    from createPagination_result [OF this] show ?thesis by simp
  next
    case False
    then have "s2 = ?s1" using s2 by (simp only: if_False) simp
    then show ?thesis by (simp add: same_layout_def)
  qed
  then show "items s' = items s" "offset s' = offset s" "currentItem s' = currentItem s"
    "isMobile s' = isMobile s" "o_loop (options s') = o_loop (options s)"
    "o_infinite (options s') = o_infinite (options s)"
    "o_autoplay (options s') = o_autoplay (options s)"
    "fromAction s' = fromAction s"
    using s' by (simp_all add: same_layout_def)
qed

lemma onWindowResize_returns:
  assumes "o_pagination (options s) \<longrightarrow> 0 < o_slidesToScroll (options s)"
    and "\<forall>bp\<in>set (case o_responsive (options s) of None \<Rightarrow> [] | Some bps \<Rightarrow> bps). 0 < fst (snd bp)"
  shows "\<exists>s'. onWindowResize s = Some s'"
proof -
  let ?s1 = "s\<lparr>options := foldl (apply_breakpoint (innerWidth s)) (options s)
                 (case o_responsive (options s) of None \<Rightarrow> [] | Some bps \<Rightarrow> bps)\<rparr>"
  show ?thesis
  proof (cases "o_pagination (options s)")
    case False
    then show ?thesis by (simp add: onWindowResize_def Let_def)
  next
    case True
    then have "0 < o_slidesToScroll (options ?s1)"
      using assms foldl_apply_breakpoint_positive by simp
    from createPagination_returns [OF this] obtain s2 where "createPagination ?s1 = Some s2"
      by blast
    then show ?thesis using True by (simp add: onWindowResize_def Let_def)
  qed
qed

lemma unmoved_index:
  assumes "\<not> o_loop (options s)"
  shows "clampIndex s (adjustIndex s (currentItem s)) = currentItem s"
  using assms by (simp add: adjustIndex_def clampIndex_def)

lemma clone_items_fields:
  "offset (clone_items s n) = o_slidesVisible (options s) + o_slidesToScroll (options s)"
  "options (clone_items s n) = options s"
  "isMobile (clone_items s n) = isMobile s"
  "items (clone_items s n) =
     map clone (js_slice (items s)
                  (items_length s - (o_slidesVisible (options s) + o_slidesToScroll (options s)))
                  (items_length s))
     @ items s
     @ map clone (js_slice (items s) 0 (o_slidesVisible (options s) + o_slidesToScroll (options s)))"
  by (simp_all add: clone_items_def Let_def)

lemma clone_items_currentItem:
  assumes "\<not> o_loop (options s)"
  shows "currentItem (clone_items s n) = o_slidesVisible (options s) + o_slidesToScroll (options s)"
proof -
  let ?off = "o_slidesVisible (options s) + o_slidesToScroll (options s)"
  let ?s2 = "s\<lparr>offset := ?off,
               items := map clone (js_slice (items s) (items_length s - ?off) (items_length s))
                        @ items s @ map clone (js_slice (items s) 0 ?off),
               effects := effects s @ (if ?off > int n then [ConsoleError] else [])
                 @ map CloneNode (js_slice (items s) (items_length s - ?off) (items_length s))
                 @ map CloneNode (js_slice (items s) 0 ?off),
               currentItem := ?off\<rparr>"
  have "clone_items s n = gotoItem ?s2 (currentItem ?s2) True"
    by (simp add: clone_items_def Let_def)
  moreover have "\<not> o_loop (options ?s2)" using assms by simp
  ultimately show ?thesis
    using unmoved_index [of ?s2] by simp
qed

lemma js_slice_lengths:
  assumes "0 \<le> k" and "k \<le> int (length xs)"
  shows "length (js_slice xs (int (length xs) - k) (int (length xs))) = nat k"
    and "length (js_slice xs 0 k) = nat k"
  using assms by (auto simp: js_slice_def Let_def min_def max_def)

text \<open>
  The constructor returns whenever it does not throw and every pagination loop it runs
  has a positive step; later steps keep the items, offset and index set up at the start.
\<close>

lemma construct_returns:
  fixes children u w
  defines "opts \<equiv> assign_options u"
  defines "s2 \<equiv> (if o_infinite opts
                  then clone_items (wrap_children (initial_fields opts w) children) (length children)
                  else wrap_children (initial_fields opts w) children)"
  assumes "\<not> (o_loop opts \<and> o_infinite opts)"
    and "o_pagination opts \<longrightarrow> 0 < o_slidesToScroll opts"
    and "\<forall>bp\<in>set (case u_responsive u of None \<Rightarrow> [] | Some bps \<Rightarrow> bps). 0 < fst (snd bp)"
  shows "\<exists>s. construct children u w = Built s \<and> items s = items s2 \<and> offset s = offset s2 \<and>
           currentItem s = currentItem s2 \<and> \<not> isMobile s \<and>
           o_loop (options s) = o_loop opts \<and> o_infinite (options s) = o_infinite opts \<and>
           (u_responsive u = None \<longrightarrow> options s = opts)"
proof -
  let ?s3 = "s2\<lparr>effects := effects s2 @ map (\<lambda>it. AppendChild Container (ItemNode it)) (items s2)\<rparr>"
  let ?s5 = "if o_navigation opts then createNavigation (setStyle ?s3) else setStyle ?s3"
  have s2: "options s2 = opts" "\<not> isMobile s2"
    by (simp_all add: s2_def clone_items_fields initial_fields_def)
  have s5: "items ?s5 = items s2" "offset ?s5 = offset s2" "currentItem ?s5 = currentItem s2"
    "\<not> isMobile ?s5" "options ?s5 = opts"
    using s2 by simp_all
  obtain s6 where s6: "(if o_pagination opts then createPagination ?s5 else Some ?s5) = Some s6"
    and s6': "items s6 = items s2" "offset s6 = offset s2" "currentItem s6 = currentItem s2"
      "\<not> isMobile s6" "options s6 = opts"
  proof (cases "o_pagination opts")
    case False
    then show ?thesis using that [of ?s5] s5 by simp
  next
    case True
    then have "0 < o_slidesToScroll (options ?s5)" using assms(4) s5(5) by simp
    from createPagination_returns [OF this] obtain t where t: "createPagination ?s5 = Some t"
      by blast
    from createPagination_result [OF t] s5 show ?thesis
      using that [of t] t True by (simp add: same_layout_def)
  qed
  let ?s7 = "forEach_moveCallBacks s6 (currentItem s6)"
  have s7: "items ?s7 = items s2" "offset ?s7 = offset s2" "currentItem ?s7 = currentItem s2"
    "\<not> isMobile ?s7" "options ?s7 = opts"
    using s6' by simp_all
  have resp: "o_responsive opts = u_responsive u"
    by (simp add: opts_def assign_options_def)
  obtain s8 where s8: "(if o_responsive opts \<noteq> None
         then map_option (\<lambda>r. r\<lparr>effects := effects r @ [AddEventListener Window ''resize'' HResize]\<rparr>)
                (onWindowResize ?s7)
         else Some ?s7) = Some s8"
    and s8': "items s8 = items s2" "offset s8 = offset s2" "currentItem s8 = currentItem s2"
      "\<not> isMobile s8" "o_loop (options s8) = o_loop opts"
      "o_infinite (options s8) = o_infinite opts"
      "u_responsive u = None \<longrightarrow> options s8 = opts"
  proof (cases "o_responsive opts = None")
    case True
    then show ?thesis using that [of ?s7] s7 by simp
  next
    case False
    have "\<exists>t. onWindowResize ?s7 = Some t"
      using assms(4,5) s7(5) resp by (intro onWindowResize_returns) simp_all
    then obtain t where t: "onWindowResize ?s7 = Some t" by blast
    from onWindowResize_result [OF t] s7 show ?thesis
      using that [of "t\<lparr>effects := effects t @ [AddEventListener Window ''resize'' HResize]\<rparr>"]
        t False resp by auto
  qed
  have "construct children u w = Built (register_listeners s8)"
    using assms(3) s6 s8 unfolding construct_def opts_def [symmetric] Let_def s2_def [symmetric]
    by simp
  then show ?thesis using s8' by simp
qed

subsection \<open>Infinite mode: the clones\<close>

text \<open>
  C7 (amended). With \<open>infinite: true\<close> (and no \<open>loop\<close>), \<open>slidesVisible \<ge> 1\<close>,
  \<open>slidesToScroll \<ge> 1\<close> and at least \<open>slidesVisible + slidesToScroll\<close> children (and only
  positive \<open>slidesToScroll\<close> in the breakpoints), the constructor returns an object whose
  offset is \<open>slidesVisible + slidesToScroll\<close>, whose item list has \<open>n + 2 * offset\<close> entries
  and whose \<open>currentItem\<close> is the offset.
\<close>

theorem infinite_clones:
  assumes "u_infinite u = Some True" and "u_loop u \<noteq> Some True"
    and "1 \<le> o_slidesVisible (assign_options u)" and "1 \<le> o_slidesToScroll (assign_options u)"
    and "o_slidesVisible (assign_options u) + o_slidesToScroll (assign_options u)
           \<le> int (length children)"
    and "\<forall>bp\<in>set (case u_responsive u of None \<Rightarrow> [] | Some bps \<Rightarrow> bps). 0 < fst (snd bp)"
  shows "\<exists>s. construct children u w = Built s \<and>
           offset s = o_slidesVisible (assign_options u) + o_slidesToScroll (assign_options u) \<and>
           items_length s = int (length children) + 2 * offset s \<and>
           currentItem s = offset s"
proof -
  let ?opts = "assign_options u"
  let ?off = "o_slidesVisible ?opts + o_slidesToScroll ?opts"
  let ?w = "wrap_children (initial_fields ?opts w) children"
  have o: "o_infinite ?opts" "\<not> o_loop ?opts"
    using assms(1,2) by (auto simp: assign_options_def split: option.splits)
  have w: "options ?w = ?opts" "items ?w = map Item children"
    by (simp_all add: initial_fields_def)
  from construct_returns [where u = u and w = w and children = children] o assms(4,6)
  obtain s where s: "construct children u w = Built s"
    "items s = items (clone_items ?w (length children))"
    "offset s = offset (clone_items ?w (length children))"
    "currentItem s = currentItem (clone_items ?w (length children))"
    by auto
  have off: "offset s = ?off"
    using s(3) w by (simp add: clone_items_fields)
  have cur: "currentItem s = ?off"
    using s(4) w o(2) by (simp add: clone_items_currentItem)
  have k: "0 \<le> ?off" "?off \<le> int (length (map Item children))"
    using assms(3-5) by simp_all
  have "length (items s) = nat ?off + length children + nat ?off"
    using s(2) w js_slice_lengths [OF k]
    by (simp add: clone_items_fields items_length_def)
  then have "items_length s = int (length children) + 2 * ?off"
    using k(1) by (simp add: items_length_def)
  with s(1) off cur show ?thesis by simp
qed

theorem infinite_clones_witness:
  "\<exists>s. construct [0, 1, 2, 3, 4, 5] (no_options\<lparr>u_infinite := Some True\<rparr>) 1000 = Built s \<and>
        offset s = 2 \<and> items_length s = 10 \<and> currentItem s = 2"
  using infinite_clones [of "no_options\<lparr>u_infinite := Some True\<rparr>" "[0, 1, 2, 3, 4, 5]" 1000]
  by (auto simp: no_options_def assign_options_def)

text \<open>
  C7 as stated fails when there are fewer children than the offset: one child with the
  default \<open>slidesVisible = slidesToScroll = 1\<close> gives offset 2 and three items, not five.
\<close>

theorem infinite_clones_counterexample:
  "map_option offset (built (construct [0] (no_options\<lparr>u_infinite := Some True\<rparr>) 1000)) = Some 2 \<and>
   map_option items_length (built (construct [0] (no_options\<lparr>u_infinite := Some True\<rparr>) 1000)) =
     Some 3 \<and>
   map_option items (built (construct [0] (no_options\<lparr>u_infinite := Some True\<rparr>) 1000)) =
     Some [Clone 0, Item 0, Clone 0]"
  by code_simp

subsection \<open>Loop mode at the two ends\<close>

lemma cpt_backward_none:
  assumes "0 \<le> currentItem s" and "currentItem s < items_length s"
    and "slidesToScroll s \<le> currentItem s"
  shows "cpt_backward s = 0"
  using assms by (simp add: cpt_backward_def item_undefined_def)

lemma cpt_backward_all:
  assumes "currentItem s = 0"
  shows "cpt_backward s = max 0 (slidesToScroll s)"
proof -
  have "filter (\<lambda>i. item_undefined s (currentItem s - i)) (rev [1..slidesToScroll s]) =
          rev [1..slidesToScroll s]"
    using assms by (intro filter_True) (simp add: item_undefined_def)
  then show ?thesis by (simp add: cpt_backward_def)
qed

lemma cpt_forward_none:
  assumes "0 \<le> currentItem s + slidesToScroll s"
    and "currentItem s + slidesToScroll s + slidesVisible s \<le> items_length s"
  shows "cpt_forward s = 0"
  using assms by (simp add: cpt_forward_def item_undefined_def)

lemma cpt_forward_nonneg: "0 \<le> cpt_forward s"
  by (simp add: cpt_forward_def)

lemma cpt_forward_at_end:
  assumes "slidesToScroll s \<le> slidesVisible s" and "items_length s \<le> currentItem s + slidesVisible s"
  shows "slidesToScroll s \<le> cpt_forward s"
proof (cases "0 < slidesToScroll s")
  case False
  then show ?thesis using cpt_forward_nonneg [of s] by simp
next
  case True
  let ?P = "\<lambda>i. item_undefined s (currentItem s + slidesToScroll s - 1 + i)"
  let ?a = "slidesVisible s - slidesToScroll s + 1"
  have split: "[1..slidesVisible s] = [1..?a - 1] @ [?a..slidesVisible s]"
    using True assms(1) by (intro upto_split1) simp_all
  have "filter ?P [?a..slidesVisible s] = [?a..slidesVisible s]"
    using assms(2) by (intro filter_True) (simp add: item_undefined_def)
  then have "length (filter ?P [1..slidesVisible s]) \<ge> length [?a..slidesVisible s]"
    by (simp add: split)
  then show ?thesis
    using True by (simp add: cpt_forward_def)
qed

text \<open>
  C2 (amended). In loop mode, from a state with \<open>0 \<le> currentItem < items.length\<close>:
  \<open>gotoItem(-1)\<close> lands on \<open>items.length - slidesVisible\<close> when \<open>currentItem\<close> is 0 or at
  least \<open>slidesToScroll\<close>; \<open>gotoItem(items.length)\<close> lands on 0 when a full scroll step
  still fits (\<open>currentItem + slidesToScroll + slidesVisible \<le> items.length\<close>) or when the
  window is at the end (\<open>items.length \<le> currentItem + slidesVisible\<close>) with
  \<open>slidesToScroll \<le> slidesVisible\<close>.
\<close>

theorem loop_wraps_at_both_ends:
  assumes "o_loop (options s)" and "0 \<le> currentItem s" and "currentItem s < items_length s"
  shows "(currentItem s = 0 \<or> slidesToScroll s \<le> currentItem s \<longrightarrow>
            currentItem (gotoItem s (- 1) animation) = items_length s - slidesVisible s) \<and>
         (currentItem s + slidesToScroll s + slidesVisible s \<le> items_length s \<or>
          slidesToScroll s \<le> slidesVisible s \<and> items_length s \<le> currentItem s + slidesVisible s \<longrightarrow>
            currentItem (gotoItem s (items_length s) animation) = 0)"
proof (intro conjI impI)
  assume a: "currentItem s = 0 \<or> slidesToScroll s \<le> currentItem s"
  have "\<not> cpt_backward s < slidesToScroll s \<or> cpt_backward s = 0"
    using a cpt_backward_all [of s] cpt_backward_none [OF assms(2,3)] by auto
  then have "adjustIndex s (- 1) = - 1"
    using assms(2,3) by (auto simp: adjustIndex_def Let_def)
  then show "currentItem (gotoItem s (- 1) animation) = items_length s - slidesVisible s"
    using assms(1) by (simp add: clampIndex_def)
next
  assume a: "currentItem s + slidesToScroll s + slidesVisible s \<le> items_length s \<or>
             slidesToScroll s \<le> slidesVisible s \<and> items_length s \<le> currentItem s + slidesVisible s"
  have "\<not> cpt_forward s < slidesToScroll s \<or> cpt_forward s = 0"
  proof (cases "0 \<le> currentItem s + slidesToScroll s")
    case True
    then show ?thesis
      using a cpt_forward_none [OF True] cpt_forward_at_end [of s] by auto
  next
    case False
    then have "slidesToScroll s < 0" using assms(2) by simp
    then show ?thesis using cpt_forward_nonneg [of s] by simp
  qed
  then have "adjustIndex s (items_length s) = items_length s"
    using assms(2,3) by (auto simp: adjustIndex_def Let_def)
  then show "currentItem (gotoItem s (items_length s) animation) = 0"
    using assms(1,2,3) by (simp add: clampIndex_def)
qed


theorem loop_wraps_at_both_ends_witness:
  "o_loop (options carousel5_loop) \<and> 0 \<le> currentItem carousel5_loop \<and>
   currentItem carousel5_loop < items_length carousel5_loop \<and>
   currentItem carousel5_loop = 0 \<and>
   currentItem (gotoItem carousel5_loop (- 1) True) = 3 \<and>
   currentItem carousel5_loop + slidesToScroll carousel5_loop + slidesVisible carousel5_loop
     \<le> items_length carousel5_loop \<and>
   currentItem (gotoItem carousel5_loop 5 True) = 0"
proof -
  have h: "o_loop (options carousel5_loop)" "0 \<le> currentItem carousel5_loop"
    "currentItem carousel5_loop < items_length carousel5_loop"
    by code_simp+
  have v: "currentItem carousel5_loop = 0" "items_length carousel5_loop = 5"
    "slidesVisible carousel5_loop = 2" "slidesToScroll carousel5_loop = 2"
    by code_simp+
  show ?thesis
    using h loop_wraps_at_both_ends [OF h, of True] by (simp add: v)
qed

lemma upto_1_2: "[1..2] = [1, 2]"
  by code_simp

text \<open>
  C2 as stated fails on reachable states of a looping carousel over five children with
  \<open>slidesVisible = slidesToScroll = 2\<close>: after \<open>next(), next(), prev()\<close> the index is 1 and
  \<open>gotoItem(-1)\<close> lands on 0, not on \<open>5 - 2 = 3\<close>; after one \<open>next()\<close> the index is 2 and
  \<open>gotoItem(5)\<close> lands on 4, not on 0.
\<close>

theorem loop_wraps_at_both_ends_counterexample:
  "map_option items_length (built carousel5_loop_built) = Some 5 \<and>
   map_option slidesVisible (built carousel5_loop_built) = Some 2 \<and>
   map_option currentItem (after carousel5_loop_built [Next, Next, Prev]) = Some 1 \<and>
   map_option currentItem (after carousel5_loop_built [Next, Next, Prev, GotoItem (- 1) True])
     = Some 0 \<and>
   map_option currentItem (after carousel5_loop_built [Next]) = Some 2 \<and>
   map_option currentItem (after carousel5_loop_built [Next, GotoItem 5 True]) = Some 4"
proof -
  have b: "built carousel5_loop_built = Some carousel5_loop"
    by code_simp
  define s0 where "s0 = carousel5_loop"
  define s1 where "s1 = carousel_next s0"
  define s2 where "s2 = carousel_next s1"
  define s3 where "s3 = carousel_prev s2"
  have s0: "items_length s0 = 5" "slidesVisible s0 = 2" "slidesToScroll s0 = 2"
    "o_loop (options s0)" "currentItem s0 = 0"
    unfolding s0_def by code_simp+
  have s1: "items_length s1 = 5" "slidesVisible s1 = 2" "slidesToScroll s1 = 2"
    "o_loop (options s1)" "currentItem s1 = 2"
    using s0 by (simp_all add: s1_def carousel_next_def adjustIndex_def clampIndex_def
        item_undefined_def cpt_forward_def upto_1_2)
  have s2: "items_length s2 = 5" "slidesVisible s2 = 2" "slidesToScroll s2 = 2"
    "o_loop (options s2)" "currentItem s2 = 3"
    using s1 by (simp_all add: s2_def carousel_next_def adjustIndex_def clampIndex_def
        item_undefined_def cpt_forward_def upto_1_2)
  have s3: "items_length s3 = 5" "slidesVisible s3 = 2" "slidesToScroll s3 = 2"
    "o_loop (options s3)" "currentItem s3 = 1"
    using s2 by (simp_all add: s3_def carousel_prev_def adjustIndex_def clampIndex_def
        item_undefined_def cpt_backward_def upto_1_2)
  have bwd: "currentItem (gotoItem s3 (- 1) True) = 0"
    using s3 by (simp add: adjustIndex_def clampIndex_def item_undefined_def cpt_backward_def upto_1_2)
  have fwd: "currentItem (gotoItem s1 5 True) = 4"
    using s1 by (simp add: adjustIndex_def clampIndex_def item_undefined_def cpt_forward_def upto_1_2)
  have r: "run s0 [Next, Next, Prev] = Some s3"
    "run s0 [Next, Next, Prev, GotoItem (- 1) True] = Some (gotoItem s3 (- 1) True)"
    "run s0 [Next] = Some s1"
    "run s0 [Next, GotoItem 5 True] = Some (gotoItem s1 5 True)"
    by (simp_all add: apply_operation_def s1_def s2_def s3_def)
  show ?thesis
    using s0 s1 s3 bwd fwd by (simp add: after_def b s0_def [symmetric] r del: run.simps)
qed

subsection \<open>The index stays within the items\<close>

lemma autoplay_keeps:
  "same_layout s (autoplay s)" "currentItem (autoplay s) = currentItem s"
  "same_layout s (stopAutoplay s)" "currentItem (stopAutoplay s) = currentItem s"
  "same_layout s (onMove s cb)" "currentItem (onMove s cb) = currentItem s"
  by (simp_all add: same_layout_def autoplay_def stopAutoplay_def onMove_def split: option.splits)

lemma in_range_keeps [simp]:
  "in_range (autoplay s) = in_range s"
  "in_range (stopAutoplay s) = in_range s"
  "in_range (onMove s cb) = in_range s"
  by (simp_all add: in_range_def items_length_def autoplay_def stopAutoplay_def onMove_def
      split: option.splits)

lemma same_layout_refl [simp]: "same_layout s s"
  by (simp add: same_layout_def)

lemma dispatch_plain:
  assumes "\<not> is_resize (Dispatch ev)"
  shows "\<exists>t. dispatch s ev = Some t \<and> same_layout s t \<and>
           (in_range s \<and>
            (o_loop (options s) \<longrightarrow> 1 \<le> slidesVisible s \<and> slidesVisible s \<le> items_length s)
            \<longrightarrow> in_range t)"
proof (cases ev)
  case (KeyUp k)
  then show ?thesis
    using gotoItem_in_range [of s]
    by (simp add: dispatch_def carousel_next_def carousel_prev_def same_layout_gotoItem)
next
  case TransitionEnd
  then show ?thesis
    using resetInfinite_in_range [of s] resetInfinite_layout [of s]
    by (simp add: dispatch_def)
next
  case (IntervalTick t)
  then show ?thesis
    using gotoItem_in_range [of s]
    by (simp add: dispatch_def carousel_next_def same_layout_gotoItem)
next
  case (WindowResize w)
  then show ?thesis using assms by (simp add: is_resize_def)
qed (simp_all add: dispatch_def autoplay_keeps)

lemma apply_operation_plain:
  assumes "\<not> is_resize op"
  shows "\<exists>t. apply_operation s op = Some t \<and> same_layout s t \<and>
           (in_range s \<and>
            (o_loop (options s) \<longrightarrow> 1 \<le> slidesVisible s \<and> slidesVisible s \<le> items_length s)
            \<longrightarrow> in_range t)"
proof (cases op)
  case (Dispatch ev)
  then show ?thesis using dispatch_plain [of ev s] assms by (simp add: apply_operation_def)
next
  case ResetInfinite
  then show ?thesis
    using resetInfinite_in_range [of s] resetInfinite_layout [of s]
    by (simp add: apply_operation_def)
next
  case OnWindowResize
  then show ?thesis using assms by (simp add: is_resize_def)
qed (use gotoItem_in_range [of s] in
      \<open>simp_all add: apply_operation_def carousel_next_def carousel_prev_def same_layout_gotoItem
         autoplay_keeps\<close>)

lemma foldl_apply_breakpoint_visible:
  assumes "lo \<le> o_slidesVisible opts \<and> o_slidesVisible opts \<le> hi"
    and "\<forall>bp\<in>set bps. lo \<le> snd (snd bp) \<and> snd (snd bp) \<le> hi"
  shows "lo \<le> o_slidesVisible (foldl (apply_breakpoint w) opts bps) \<and>
         o_slidesVisible (foldl (apply_breakpoint w) opts bps) \<le> hi"
  using assms
  by (induction bps arbitrary: opts) (auto simp: apply_breakpoint_def split: prod.splits)

lemma onWindowResize_options:
  assumes "onWindowResize s = Some s'"
  shows "options s' = foldl (apply_breakpoint (innerWidth s)) (options s) (breakpoints s)"
proof -
  let ?s1 = "s\<lparr>options := foldl (apply_breakpoint (innerWidth s)) (options s)
                 (case o_responsive (options s) of None \<Rightarrow> [] | Some bps \<Rightarrow> bps)\<rparr>"
  obtain s2 where s2: "(if o_pagination (options ?s1) then createPagination ?s1 else Some ?s1) = Some s2"
    and s': "s' = forEach_moveCallBacks (setStyle s2) (currentItem (setStyle s2))"
    using assms by (auto simp: onWindowResize_def Let_def split: option.splits)
  have "options s2 = options ?s1"
  proof (cases "o_pagination (options ?s1)")
    case True
    then have "createPagination ?s1 = Some s2" using s2 by (simp only: if_True)
    from createPagination_result(1) [OF this] show ?thesis by (simp add: same_layout_def)
  next
    case False
    then have "s2 = ?s1" using s2 by (simp only: if_False) simp
    then show ?thesis by simp
  qed
  then show ?thesis using s' by (simp add: breakpoints_def)
qed

lemma breakpoints_foldl:
  "o_responsive (options s') = o_responsive (options s) \<Longrightarrow> breakpoints s' = breakpoints s"
  by (simp add: breakpoints_def)

lemma onWindowResize_fits:
  assumes "onWindowResize s = Some s'" and "in_range s" and "window_fits s"
  shows "in_range s' \<and> window_fits s'"
proof -
  note r = onWindowResize_result [OF assms(1)]
  have o: "options s' = foldl (apply_breakpoint (innerWidth s)) (options s) (breakpoints s)"
    by (rule onWindowResize_options [OF assms(1)])
  have len: "items_length s' = items_length s"
    using r(1) by (simp add: items_length_def)
  have bps: "breakpoints s' = breakpoints s"
    using o by (simp add: breakpoints_def)
  have rng: "in_range s'"
    using assms(2) r(3) len by (simp add: in_range_def)
  have "window_fits s'"
  proof (cases "o_loop (options s)")
    case False
    then show ?thesis using r(5) by (simp add: window_fits_def)
  next
    case True
    then have f: "1 \<le> slidesVisible s" "slidesVisible s \<le> items_length s"
      "\<forall>bp\<in>set (breakpoints s). 1 \<le> snd (snd bp) \<and> snd (snd bp) \<le> items_length s"
      using assms(3) by (simp_all add: window_fits_def)
    have "1 \<le> slidesVisible s' \<and> slidesVisible s' \<le> items_length s"
    proof (cases "isMobile s")
      case True
      then show ?thesis using f(1,2) r(4) by (simp add: slidesVisible_def)
    next
      case False
      then have "1 \<le> o_slidesVisible (options s) \<and> o_slidesVisible (options s) \<le> items_length s"
        using f(1,2) by (simp add: slidesVisible_def)
      from foldl_apply_breakpoint_visible [OF this f(3), of "innerWidth s"]
      show ?thesis using False r(4) o by (simp add: slidesVisible_def)
    qed
    then show ?thesis using f(3) len bps by (simp add: window_fits_def)
  qed
  with rng show ?thesis by simp
qed

lemma window_fits_layout:
  assumes "same_layout s t" and "window_fits s"
  shows "window_fits t"
  using assms same_layout_getters [OF assms(1)]
  by (simp add: window_fits_def same_layout_def breakpoints_def)

lemma innerWidth_update [simp]:
  "in_range (s\<lparr>innerWidth := w\<rparr>) = in_range s"
  "window_fits (s\<lparr>innerWidth := w\<rparr>) = window_fits s"
  "steps_positive (s\<lparr>innerWidth := w\<rparr>) = steps_positive s"
  by (simp_all add: in_range_def window_fits_def steps_positive_def breakpoints_def
      slidesVisible_def items_length_def)

lemma apply_operation_fits:
  assumes "apply_operation s op = Some t" and "in_range s" and "window_fits s"
  shows "in_range t \<and> window_fits t"
proof (cases "is_resize op")
  case False
  from apply_operation_plain [OF False, of s] assms(1)
  have t: "same_layout s t"
    "in_range s \<and>
      (o_loop (options s) \<longrightarrow> 1 \<le> slidesVisible s \<and> slidesVisible s \<le> items_length s)
      \<longrightarrow> in_range t"
    by auto
  have "in_range t" using t(2) assms(2,3) by (simp add: window_fits_def)
  with window_fits_layout [OF t(1) assms(3)] show ?thesis by simp
next
  case True
  then consider "op = OnWindowResize" | w where "op = Dispatch (WindowResize w)"
    by (auto simp: is_resize_def split: operation.splits event.splits)
  then show ?thesis
  proof cases
    case 1
    then have "onWindowResize s = Some t" using assms(1) by (simp add: apply_operation_def)
    from onWindowResize_fits [OF this assms(2,3)] show ?thesis .
  next
    case 2
    show ?thesis
    proof (cases "o_responsive (options s) = None")
      case True
      then have "t = s\<lparr>innerWidth := w\<rparr>"
        using assms(1) 2 by (simp add: apply_operation_def dispatch_def)
      then show ?thesis using assms(2,3) by simp
    next
      case False
      then have "onWindowResize (s\<lparr>innerWidth := w\<rparr>) = Some t"
        using assms(1) 2 by (simp add: apply_operation_def dispatch_def)
      from onWindowResize_fits [OF this] assms(2,3) show ?thesis by simp
    qed
  qed
qed

lemma run_fits:
  assumes "run s ops = Some t" and "in_range s" and "window_fits s"
  shows "in_range t \<and> window_fits t"
  using assms
proof (induction ops arbitrary: s)
  case Nil
  then show ?case by simp
next
  case (Cons op ops)
  then obtain u where u: "apply_operation s op = Some u" "run u ops = Some t"
    by (auto split: option.splits)
  from apply_operation_fits [OF u(1) Cons.prems(2,3)] Cons.IH [OF u(2)] show ?case by simp
qed

lemma steps_positive_layout:
  assumes "same_layout s t" and "steps_positive s"
  shows "steps_positive t"
  using assms by (simp add: steps_positive_def same_layout_def breakpoints_def)

lemma onWindowResize_positive:
  assumes "steps_positive s"
  shows "\<exists>t. onWindowResize s = Some t \<and> steps_positive t"
proof -
  let ?s1 = "s\<lparr>options := foldl (apply_breakpoint (innerWidth s)) (options s)
                 (case o_responsive (options s) of None \<Rightarrow> [] | Some bps \<Rightarrow> bps)\<rparr>"
  have "\<exists>t. onWindowResize s = Some t"
  proof (cases "o_pagination (options s)")
    case False
    then show ?thesis by (simp add: onWindowResize_def Let_def)
  next
    case True
    then have "0 < o_slidesToScroll (options ?s1)"
      using assms foldl_apply_breakpoint_positive
      by (simp add: steps_positive_def breakpoints_def)
    from createPagination_returns [OF this] obtain s2 where "createPagination ?s1 = Some s2"
      by blast
    then show ?thesis using True by (simp add: onWindowResize_def Let_def)
  qed
  then obtain t where t: "onWindowResize s = Some t" by blast
  have o: "options t = foldl (apply_breakpoint (innerWidth s)) (options s) (breakpoints s)"
    by (rule onWindowResize_options [OF t])
  have "steps_positive t"
    using assms o foldl_apply_breakpoint_positive [of "options s" "breakpoints s" "innerWidth s"]
    by (simp add: steps_positive_def breakpoints_def)
  with t show ?thesis by blast
qed

lemma apply_operation_returns:
  assumes "steps_positive s"
  shows "\<exists>t. apply_operation s op = Some t \<and> steps_positive t"
proof (cases "is_resize op")
  case False
  from apply_operation_plain [OF False, of s]
  obtain t where "apply_operation s op = Some t" "same_layout s t" by blast
  with steps_positive_layout [OF _ assms] show ?thesis by blast
next
  case True
  then consider "op = OnWindowResize" | w where "op = Dispatch (WindowResize w)"
    by (auto simp: is_resize_def split: operation.splits event.splits)
  then show ?thesis
  proof cases
    case 1
    then show ?thesis using onWindowResize_positive [OF assms] by (simp add: apply_operation_def)
  next
    case 2
    have "steps_positive (s\<lparr>innerWidth := w\<rparr>)" using assms by simp
    from onWindowResize_positive [OF this] this show ?thesis
      using 2 by (simp add: apply_operation_def dispatch_def)
  qed
qed

lemma run_returns:
  assumes "steps_positive s"
  shows "\<exists>t. run s ops = Some t"
  using assms
proof (induction ops arbitrary: s)
  case Nil
  then show ?case by simp
next
  case (Cons op ops)
  from apply_operation_returns [OF Cons.prems, of op]
  obtain u where u: "apply_operation s op = Some u" "steps_positive u" by blast
  from Cons.IH [OF u(2)] u(1) show ?case by simp
qed

text \<open>
  C1 (amended). Take a state with \<open>0 \<le> currentItem < items.length\<close> in which, if the
  carousel loops, \<open>1 \<le> slidesVisible \<le> items.length\<close> holds for the current options and
  for every breakpoint of \<open>responsive\<close>. Then whatever sequence of operations, resizes
  included, has run, \<open>0 \<le> currentItem < items.length\<close> holds, and it holds after any
  \<open>gotoItem\<close> call made next. The sequence does run to its end when, with pagination on,
  \<open>slidesToScroll\<close> is positive in the options and in every breakpoint.
\<close>

theorem currentItem_within_items:
  assumes "in_range s"
    and "o_loop (options s) \<longrightarrow>
           1 \<le> slidesVisible s \<and> slidesVisible s \<le> items_length s \<and>
           (\<forall>bp\<in>set (breakpoints s). 1 \<le> snd (snd bp) \<and> snd (snd bp) \<le> items_length s)"
  shows "(\<forall>t. run s ops = Some t \<longrightarrow>
            in_range t \<and> in_range (gotoItem t index animation)) \<and>
         ((o_pagination (options s) \<longrightarrow>
             0 < o_slidesToScroll (options s) \<and> (\<forall>bp\<in>set (breakpoints s). 0 < fst (snd bp)))
          \<longrightarrow> (\<exists>t. run s ops = Some t))"
proof (intro conjI allI impI)
  have w: "window_fits s"
    using assms(2) by (simp add: window_fits_def)
  fix t
  assume "run s ops = Some t"
  from run_fits [OF this assms(1) w] have t: "in_range t" "window_fits t"
    by simp_all
  then have "o_loop (options t) \<longrightarrow> 1 \<le> slidesVisible t \<and> slidesVisible t \<le> items_length t"
    by (simp add: window_fits_def)
  from gotoItem_in_range [OF t(1) this] show "in_range (gotoItem t index animation)" .
  show "in_range t" by (rule t(1))
next
  assume "o_pagination (options s) \<longrightarrow>
    0 < o_slidesToScroll (options s) \<and> (\<forall>bp\<in>set (breakpoints s). 0 < fst (snd bp))"
  then have "steps_positive s"
    by (simp add: steps_positive_def)
  then show "\<exists>t. run s ops = Some t"
    by (rule run_returns)
qed

theorem currentItem_within_items_witness:
  "in_range carousel5_responsive \<and> o_loop (options carousel5_responsive) \<and>
   o_pagination (options carousel5_responsive) \<and>
   slidesVisible carousel5_responsive = 2 \<and> items_length carousel5_responsive = 5 \<and>
   o_slidesToScroll (options carousel5_responsive) = 2 \<and>
   breakpoints carousel5_responsive = [(800, 1, 3)] \<and>
   (\<exists>t. run carousel5_responsive [Next, Dispatch (WindowResize 1000), Prev, Prev] = Some t \<and>
        in_range t \<and> in_range (gotoItem t (- 1) True))"
proof -
  have v: "in_range carousel5_responsive" "o_loop (options carousel5_responsive)"
    "o_pagination (options carousel5_responsive)"
    "slidesVisible carousel5_responsive = 2" "items_length carousel5_responsive = 5"
    "o_slidesToScroll (options carousel5_responsive) = 2"
    "breakpoints carousel5_responsive = [(800, 1, 3)]"
    by code_simp+
  have h: "o_loop (options carousel5_responsive) \<longrightarrow>
      1 \<le> slidesVisible carousel5_responsive \<and>
      slidesVisible carousel5_responsive \<le> items_length carousel5_responsive \<and>
      (\<forall>bp\<in>set (breakpoints carousel5_responsive).
          1 \<le> snd (snd bp) \<and> snd (snd bp) \<le> items_length carousel5_responsive)"
    by (simp add: v)
  have p: "o_pagination (options carousel5_responsive) \<longrightarrow>
      0 < o_slidesToScroll (options carousel5_responsive) \<and>
      (\<forall>bp\<in>set (breakpoints carousel5_responsive). 0 < fst (snd bp))"
    by (simp add: v)
  have "\<exists>t. run carousel5_responsive [Next, Dispatch (WindowResize 1000), Prev, Prev] = Some t \<and>
        in_range t \<and> in_range (gotoItem t (- 1) True)"
    using currentItem_within_items
      [OF v(1) h, of "[Next, Dispatch (WindowResize 1000), Prev, Prev]" "- 1" True] p
    by blast
  then show ?thesis using v by simp
qed

text \<open>
  C1 as stated fails: with two children and \<open>{loop: true, slidesVisible: 3}\<close>, \<open>prev()\<close>
  calls \<open>gotoItem(-1)\<close>, which stores \<open>items.length - slidesVisible = -1\<close>. A breakpoint can
  bring the same about later: with two children and \<open>{loop: true, responsive: {800:
  {slidesToScroll: 1, slidesVisible: 3}}}\<close> in a window 500 wide, a resize to 1000 followed
  by \<open>prev()\<close> stores -1 as well.
\<close>

theorem currentItem_within_items_counterexample:
  "map_option in_range
     (after (construct [0, 1] (no_options\<lparr>u_loop := Some True, u_slidesVisible := Some 3\<rparr>) 1000)
        [Prev]) = Some False \<and>
   map_option in_range
     (after (construct [0, 1]
               (no_options\<lparr>u_loop := Some True, u_responsive := Some [(800, 1, 3)]\<rparr>) 500)
        []) = Some True \<and>
   map_option currentItem
     (after (construct [0, 1]
               (no_options\<lparr>u_loop := Some True, u_responsive := Some [(800, 1, 3)]\<rparr>) 500)
        [Dispatch (WindowResize 1000), Prev]) = Some (- 1)"
  by code_simp

subsection \<open>The reset of infinite mode\<close>

lemma new_effects_jump:
  "take 4 (new_effects s ((gotoItem s i False)\<lparr>fromAction := b\<rparr>)) =
     [SetTransition ''none'', Translate (clampIndex s (adjustIndex s i)) (length (items s)),
      ReadOffsetHeight, SetTransition '''']"
  by (simp add: new_effects_def gotoItem_def forEach_moveCallBacks_def Let_def)

lemma slidesVisible_bound:
  "1 \<le> o_slidesVisible (options s) \<Longrightarrow>
     1 \<le> slidesVisible s \<and> slidesVisible s \<le> o_slidesVisible (options s)"
  by (simp add: slidesVisible_def)

lemma jump_forward_index:
  assumes "offset s = o_slidesVisible (options s) + o_slidesToScroll (options s)"
    and "1 \<le> o_slidesVisible (options s)" and "1 \<le> o_slidesToScroll (options s)"
    and "2 * offset s \<le> items_length s"
    and "0 \<le> currentItem s" and "currentItem s \<le> o_slidesToScroll (options s)"
  shows "clampIndex s (adjustIndex s (currentItem s + (items_length s - 2 * offset s))) =
           currentItem s + (items_length s - 2 * offset s)"
proof -
  let ?i = "currentItem s + (items_length s - 2 * offset s)"
  have a: "adjustIndex s ?i = ?i"
    using assms slidesVisible_bound [OF assms(2)] by (simp add: adjustIndex_def)
  have "\<not> item_undefined s (currentItem s + slidesVisible s)"
    using assms slidesVisible_bound [OF assms(2)] by (simp add: item_undefined_def)
  then show ?thesis
    using assms a by (simp add: clampIndex_def)
qed

lemma jump_backward_index:
  assumes "offset s = o_slidesVisible (options s) + o_slidesToScroll (options s)"
    and "1 \<le> o_slidesVisible (options s)" and "1 \<le> o_slidesToScroll (options s)"
    and "2 * offset s \<le> items_length s"
    and "currentItem s < items_length s" and "items_length s - offset s \<le> currentItem s"
  shows "clampIndex s (adjustIndex s (currentItem s - (items_length s - 2 * offset s))) =
           currentItem s - (items_length s - 2 * offset s)"
proof -
  let ?i = "currentItem s - (items_length s - 2 * offset s)"
  have a: "adjustIndex s ?i = ?i"
    using assms by (simp add: adjustIndex_def)
  show ?thesis
    using assms a by (simp add: clampIndex_def)
qed

lemma construct_infinite_layout:
  assumes "u_infinite u = Some True" and "u_loop u \<noteq> Some True" and "u_responsive u = None"
    and "1 \<le> o_slidesVisible (assign_options u)" and "1 \<le> o_slidesToScroll (assign_options u)"
    and "o_slidesVisible (assign_options u) + o_slidesToScroll (assign_options u)
           \<le> int (length children)"
  shows "\<exists>s. construct children u w = Built s \<and> infinite_layout s \<and> \<not> o_loop (options s)"
proof -
  let ?opts = "assign_options u"
  let ?off = "o_slidesVisible ?opts + o_slidesToScroll ?opts"
  let ?w = "wrap_children (initial_fields ?opts w) children"
  have o: "o_infinite ?opts" "\<not> o_loop ?opts"
    using assms(1,2) by (auto simp: assign_options_def split: option.splits)
  have w: "options ?w = ?opts" "items ?w = map Item children"
    by (simp_all add: initial_fields_def)
  from construct_returns [where u = u and w = w and children = children] o assms(3,5)
  obtain s where s: "construct children u w = Built s"
    "items s = items (clone_items ?w (length children))"
    "offset s = offset (clone_items ?w (length children))"
    "currentItem s = currentItem (clone_items ?w (length children))"
    "options s = ?opts"
    by auto
  have off: "offset s = ?off"
    using s(3) w by (simp add: clone_items_fields)
  have cur: "currentItem s = ?off"
    using s(4) w o(2) by (simp add: clone_items_currentItem)
  have k: "0 \<le> ?off" "?off \<le> int (length (map Item children))"
    using assms(4-6) by simp_all
  have "length (items s) = nat ?off + length children + nat ?off"
    using s(2) w js_slice_lengths [OF k]
    by (simp add: clone_items_fields items_length_def)
  then have len: "items_length s = int (length children) + 2 * ?off"
    using k(1) by (simp add: items_length_def)
  have "infinite_layout s"
    using off cur len s(5) assms(4-6) by (simp add: infinite_layout_def)
  with s(1,5) o(2) show ?thesis by auto
qed

lemma run_same_layout:
  assumes "run s ops = Some t" and "o_responsive (options s) = None"
  shows "same_layout s t"
  using assms
proof (induction ops arbitrary: s)
  case Nil
  then show ?case by simp
next
  case (Cons op ops)
  then obtain u where u: "apply_operation s op = Some u" "run u ops = Some t"
    by (auto split: option.splits)
  have b: "breakpoints s = []"
    using Cons.prems(2) by (simp add: breakpoints_def)
  have su: "same_layout s u"
  proof (cases "is_resize op")
    case False
    from apply_operation_plain [OF False, of s] u(1) show ?thesis by auto
  next
    case True
    then consider "op = OnWindowResize" | w where "op = Dispatch (WindowResize w)"
      by (auto simp: is_resize_def split: operation.splits event.splits)
    then show ?thesis
    proof cases
      case 1
      then have r: "onWindowResize s = Some u" using u(1) by (simp add: apply_operation_def)
      from onWindowResize_result [OF r] onWindowResize_options [OF r] b
      show ?thesis by (simp add: same_layout_def)
    next
      case 2
      then have "u = s\<lparr>innerWidth := w\<rparr>"
        using u(1) Cons.prems(2) by (simp add: apply_operation_def dispatch_def)
      then show ?thesis by (simp add: same_layout_def)
    qed
  qed
  then have "o_responsive (options u) = None"
    using Cons.prems(2) by (simp add: same_layout_def)
  from Cons.IH [OF u(2) this] su show ?case
    by (simp add: same_layout_def)
qed

lemma infinite_layout_run:
  assumes "infinite_layout s" and "\<not> o_loop (options s)" and "o_responsive (options s) = None"
    and "run s ops = Some t"
  shows "infinite_layout t"
proof -
  have "in_range s"
    using assms(1) by (simp add: infinite_layout_def in_range_def)
  moreover have "window_fits s"
    using assms(2) by (simp add: window_fits_def)
  ultimately have "in_range t"
    using run_fits [OF assms(4)] by simp
  moreover have "same_layout s t"
    by (rule run_same_layout [OF assms(4,3)])
  ultimately show ?thesis
    using assms(1) by (simp add: infinite_layout_def in_range_def same_layout_def items_length_def)
qed

text \<open>
  C3 (amended). \<open>resetInfinite\<close> changes nothing unless \<open>fromAction\<close> is set, and when it is
  set, \<open>fromAction\<close> is false afterwards. In a carousel laid out for infinite mode
  (\<open>offset = options.slidesVisible + options.slidesToScroll\<close>, both at least 1, at least
  \<open>2 * offset\<close> items, \<open>currentItem\<close> in range) with \<open>fromAction\<close> set: if \<open>currentItem \<le>
  options.slidesToScroll\<close> the index moves forward by \<open>items.length - 2 * offset\<close>, with the
  transition switched off around the transform; if \<open>currentItem \<ge> items.length - offset\<close>
  it moves backward by the same amount, likewise without transition; otherwise only
  \<open>fromAction\<close> changes.
\<close>

theorem resetInfinite_rule:
  "(\<not> fromAction s \<longrightarrow> resetInfinite s = s) \<and>
   (fromAction s \<longrightarrow> \<not> fromAction (resetInfinite s)) \<and>
   (infinite_layout s \<and> fromAction s \<longrightarrow>
      (currentItem s \<le> o_slidesToScroll (options s) \<longrightarrow>
         currentItem (resetInfinite s) = currentItem s + (items_length s - 2 * offset s) \<and>
         take 4 (new_effects s (resetInfinite s)) =
           [SetTransition ''none'',
            Translate (currentItem s + (items_length s - 2 * offset s)) (length (items s)),
            ReadOffsetHeight, SetTransition '''']) \<and>
      (items_length s - offset s \<le> currentItem s \<longrightarrow>
         currentItem (resetInfinite s) = currentItem s - (items_length s - 2 * offset s) \<and>
         take 4 (new_effects s (resetInfinite s)) =
           [SetTransition ''none'',
            Translate (currentItem s - (items_length s - 2 * offset s)) (length (items s)),
            ReadOffsetHeight, SetTransition '''']) \<and>
      (o_slidesToScroll (options s) < currentItem s \<and>
       currentItem s < items_length s - offset s \<longrightarrow>
         resetInfinite s = s\<lparr>fromAction := False\<rparr>))"
proof -
  have flag: "(\<not> fromAction s \<longrightarrow> resetInfinite s = s) \<and>
      (fromAction s \<longrightarrow> \<not> fromAction (resetInfinite s))"
    by (simp add: resetInfinite_def Let_def)
  have landing: "(currentItem s \<le> o_slidesToScroll (options s) \<longrightarrow>
         currentItem (resetInfinite s) = currentItem s + (items_length s - 2 * offset s) \<and>
         take 4 (new_effects s (resetInfinite s)) =
           [SetTransition ''none'',
            Translate (currentItem s + (items_length s - 2 * offset s)) (length (items s)),
            ReadOffsetHeight, SetTransition '''']) \<and>
      (items_length s - offset s \<le> currentItem s \<longrightarrow>
         currentItem (resetInfinite s) = currentItem s - (items_length s - 2 * offset s) \<and>
         take 4 (new_effects s (resetInfinite s)) =
           [SetTransition ''none'',
            Translate (currentItem s - (items_length s - 2 * offset s)) (length (items s)),
            ReadOffsetHeight, SetTransition '''']) \<and>
      (o_slidesToScroll (options s) < currentItem s \<and>
       currentItem s < items_length s - offset s \<longrightarrow>
         resetInfinite s = s\<lparr>fromAction := False\<rparr>)"
    if l: "infinite_layout s" and f: "fromAction s"
  proof -
    have a: "offset s = o_slidesVisible (options s) + o_slidesToScroll (options s)"
      "1 \<le> o_slidesVisible (options s)" "1 \<le> o_slidesToScroll (options s)"
      "2 * offset s \<le> items_length s" "0 \<le> currentItem s" "currentItem s < items_length s"
      using l by (simp_all add: infinite_layout_def)
    show ?thesis
    proof (intro conjI impI)
      assume c: "currentItem s \<le> o_slidesToScroll (options s)"
      have r: "resetInfinite s =
          (gotoItem s (currentItem s + (items_length s - 2 * offset s)) False)\<lparr>fromAction := False\<rparr>"
        using f c by (simp add: resetInfinite_def)
      show "currentItem (resetInfinite s) = currentItem s + (items_length s - 2 * offset s)"
        using jump_forward_index [OF a(1-5) c] by (simp add: r)
      show "take 4 (new_effects s (resetInfinite s)) =
          [SetTransition ''none'',
           Translate (currentItem s + (items_length s - 2 * offset s)) (length (items s)),
           ReadOffsetHeight, SetTransition '''']"
        using jump_forward_index [OF a(1-5) c] by (simp only: r new_effects_jump)
    next
      assume c: "items_length s - offset s \<le> currentItem s"
      have "\<not> currentItem s \<le> o_slidesToScroll (options s)"
        using a c by simp
      then have r: "resetInfinite s =
          (gotoItem s (currentItem s - (items_length s - 2 * offset s)) False)\<lparr>fromAction := False\<rparr>"
        using f c by (simp add: resetInfinite_def)
      show "currentItem (resetInfinite s) = currentItem s - (items_length s - 2 * offset s)"
        using jump_backward_index [OF a(1-4,6) c] by (simp add: r)
      show "take 4 (new_effects s (resetInfinite s)) =
          [SetTransition ''none'',
           Translate (currentItem s - (items_length s - 2 * offset s)) (length (items s)),
           ReadOffsetHeight, SetTransition '''']"
        using jump_backward_index [OF a(1-4,6) c] by (simp only: r new_effects_jump)
    next
      assume "o_slidesToScroll (options s) < currentItem s \<and>
              currentItem s < items_length s - offset s"
      then show "resetInfinite s = s\<lparr>fromAction := False\<rparr>"
        using f by (simp add: resetInfinite_def)
    qed
  qed
  from flag landing show ?thesis by blast
qed

theorem resetInfinite_rule_witness:
  "infinite_layout (carousel_prev carousel6_infinite) \<and>
   fromAction (carousel_prev carousel6_infinite) \<and>
   currentItem (carousel_prev carousel6_infinite)
     \<le> o_slidesToScroll (options (carousel_prev carousel6_infinite)) \<and>
   \<not> fromAction (resetInfinite (carousel_prev carousel6_infinite)) \<and>
   currentItem (resetInfinite (carousel_prev carousel6_infinite)) = 7 \<and>
   take 4 (new_effects (carousel_prev carousel6_infinite)
             (resetInfinite (carousel_prev carousel6_infinite))) =
     [SetTransition ''none'', Translate 7 10, ReadOffsetHeight, SetTransition '''']"
proof -
  define s where "s = carousel_prev carousel6_infinite"
  have v: "offset s = 2" "o_slidesVisible (options s) = 1" "o_slidesToScroll (options s) = 1"
    "items_length s = 10" "length (items s) = 10" "currentItem s = 1" "fromAction s"
    unfolding s_def by code_simp+
  have h: "infinite_layout s"
    by (simp add: infinite_layout_def v)
  have c: "currentItem s \<le> o_slidesToScroll (options s)"
    by (simp add: v)
  have "\<not> fromAction (resetInfinite s) \<and>
      currentItem (resetInfinite s) = currentItem s + (items_length s - 2 * offset s) \<and>
      take 4 (new_effects s (resetInfinite s)) =
        [SetTransition ''none'',
         Translate (currentItem s + (items_length s - 2 * offset s)) (length (items s)),
         ReadOffsetHeight, SetTransition '''']"
    using resetInfinite_rule [of s] h c v(7) by blast
  then show ?thesis
    using h c by (simp add: v s_def [symmetric])
qed

text \<open>
  C3 as stated fails outside that layout. Over one child with \<open>{infinite: true}\<close> the
  constructor leaves \<open>currentItem = 2\<close> among 3 items with offset 2 and \<open>fromAction\<close> set;
  \<open>2 \<ge> 3 - 2\<close>, so the claim has the reset move the index backward by \<open>3 - 4 = -1\<close>, to
  3, but the request is rejected and the index stays 2. Over six children with
  \<open>{infinite: true, responsive: {0: {slidesToScroll: 5, slidesVisible: 1}}}\<close> the offset is
  2 among 10 items and \<open>options.slidesToScroll\<close> is 5; after \<open>gotoItem(4)\<close>, \<open>4 \<le> 5\<close>, so
  the claim has the reset move forward by \<open>10 - 4 = 6\<close>, but the index stays 4.
\<close>

theorem resetInfinite_rule_counterexample:
  "map_option currentItem (built carousel1_bare_built) = Some 2 \<and>
   map_option fromAction (built carousel1_bare_built) = Some True \<and>
   map_option items_length (built carousel1_bare_built) = Some 3 \<and>
   map_option offset (built carousel1_bare_built) = Some 2 \<and>
   map_option currentItem (after carousel1_bare_built [Dispatch TransitionEnd]) = Some 2 \<and>
   map_option items_length (built carousel6_wide_built) = Some 10 \<and>
   map_option offset (built carousel6_wide_built) = Some 2 \<and>
   map_option (o_slidesToScroll \<circ> options) (built carousel6_wide_built) = Some 5 \<and>
   map_option currentItem (after carousel6_wide_built [GotoItem 4 True]) = Some 4 \<and>
   map_option fromAction (after carousel6_wide_built [GotoItem 4 True]) = Some True \<and>
   map_option currentItem
     (after carousel6_wide_built [GotoItem 4 True, Dispatch TransitionEnd]) = Some 4"
  by code_simp

subsection \<open>Pagination\<close>

lemma created_buttons_append [simp]:
  "created_buttons (es @ fs) = created_buttons es @ created_buttons fs"
  by (simp add: created_buttons_def)

lemma created_buttons_simps [simp]:
  "created_buttons [] = []"
  "created_buttons (CreateDiv (PaginationButton b) c # es) = b # created_buttons es"
  "created_buttons (CreateDiv PaginationNode c # es) = created_buttons es"
  "created_buttons (AddEventListener n ev h # es) = created_buttons es"
  "created_buttons (AppendChild n m # es) = created_buttons es"
  "created_buttons (ClearInnerHTML n # es) = created_buttons es"
  by (simp_all add: created_buttons_def)

lemma created_buttons_loop:
  "created_buttons
     (concat (map (\<lambda>b. [CreateDiv (PaginationButton b) c,
                         AddEventListener (PaginationButton b) ev (HGotoItem b),
                         AppendChild PaginationNode (PaginationButton b)]) bs)) = bs"
  by (induction bs) simp_all

lemma pagination_loop_length:
  assumes "0 < step"
  shows "\<exists>bs. pagination_loop 0 count step [] = Some bs \<and>
           int (length bs) = max 0 \<lceil>real_of_int count / real_of_int step\<rceil>"
proof -
  have "\<lceil>real_of_int count / real_of_int step\<rceil> = - ((- count) div step)"
    by (rule ceiling_divide_eq_div)
  then show ?thesis
    using pagination_loop_closed [OF assms, of 0 count "[]"] by simp
qed

lemma paginationCallback_never_throws:
  "paginationCallback s buttons index =
     Inr (case activeButton s buttons index of
            None \<Rightarrow> []
          | Some b \<Rightarrow>
              map (\<lambda>x. ClassRemove (PaginationButton x) ''carousel__pagination__button--active'')
                  buttons
              @ [ClassAdd (PaginationButton b) ''carousel__pagination__button--active''])"
  by (simp add: paginationCallback_def classList_def Let_def split: option.splits)

lemma activeButton_in_buttons:
  assumes "activeButton s buttons index = Some b"
  shows "b \<in> set buttons"
proof -
  from assms obtain k where k: "0 \<le> k" "k < int (length buttons)" "b = buttons ! nat k"
    by (auto simp: activeButton_def Let_def split: if_splits)
  then have "nat k < length buttons" by simp
  then show ?thesis using k(3) by simp
qed

text \<open>
  C8 (amended). When \<open>slidesToScroll\<close> is positive, \<open>createPagination\<close> returns, registers
  one observer over the buttons it built, and built \<open>max(0, ceil((length - 2*offset) /
  slidesToScroll))\<close> of them. Its observer never throws, for any integer index and any
  state: it either finds no button and changes nothing, or marks one of its own buttons.
\<close>

theorem pagination_is_safe:
  "(0 < o_slidesToScroll (options s) \<longrightarrow>
      (\<exists>s' bs. createPagination s = Some s' \<and>
         moveCallBacks s' = moveCallBacks s @ [PaginationCb bs] \<and>
         created_buttons (new_effects s s') = bs \<and>
         int (length bs) = max 0 (spec_pagination_count s))) \<and>
   (\<exists>es. paginationCallback s buttons index = Inr es \<and>
      (case activeButton s buttons index of
         None \<Rightarrow> es = []
       | Some b \<Rightarrow> b \<in> set buttons \<and>
           es = map (\<lambda>x. ClassRemove (PaginationButton x) ''carousel__pagination__button--active'')
                    buttons
                @ [ClassAdd (PaginationButton b) ''carousel__pagination__button--active'']))"
proof (intro conjI impI)
  assume pos: "0 < o_slidesToScroll (options s)"
  from pagination_loop_length [OF pos, of "items_length s - 2 * offset s"]
  obtain bs where bs:
    "pagination_loop 0 (items_length s - 2 * offset s) (o_slidesToScroll (options s)) [] = Some bs"
    "int (length bs) = max 0 (spec_pagination_count s)"
    by (auto simp: spec_pagination_count_def)
  show "\<exists>s' bs. createPagination s = Some s' \<and>
         moveCallBacks s' = moveCallBacks s @ [PaginationCb bs] \<and>
         created_buttons (new_effects s s') = bs \<and>
         int (length bs) = max 0 (spec_pagination_count s)"
    using bs
    by (simp add: createPagination_def onMove_def new_effects_def created_buttons_loop)
next
  show "\<exists>es. paginationCallback s buttons index = Inr es \<and>
      (case activeButton s buttons index of
         None \<Rightarrow> es = []
       | Some b \<Rightarrow> b \<in> set buttons \<and>
           es = map (\<lambda>x. ClassRemove (PaginationButton x) ''carousel__pagination__button--active'')
                    buttons
                @ [ClassAdd (PaginationButton b) ''carousel__pagination__button--active''])"
    using activeButton_in_buttons [of s buttons index]
    by (simp add: paginationCallback_never_throws split: option.splits)
qed


theorem pagination_is_safe_witness:
  "0 < o_slidesToScroll (options carousel6) \<and>
   (\<exists>s' bs. createPagination carousel6 = Some s' \<and>
      moveCallBacks s' = moveCallBacks carousel6 @ [PaginationCb bs] \<and>
      created_buttons (new_effects carousel6 s') = bs \<and>
      int (length bs) = 3) \<and>
   paginationCallback carousel6 [0, 2, 4] (- 3) = Inr []"
proof -
  have v: "items_length carousel6 = 6" "offset carousel6 = 0"
    "o_slidesToScroll (options carousel6) = 2"
    by code_simp+
  have a: "activeButton carousel6 [0, 2, 4] (- 3) = None"
    by code_simp
  have c: "spec_pagination_count carousel6 = 3"
    by (simp add: spec_pagination_count_def v)
  show ?thesis
    using pagination_is_safe [of carousel6 "[0, 2, 4]" "- 3"] by (auto simp: v a c)
qed

text \<open>
  C8 as stated fails for the count: over one child with \<open>{infinite: true, pagination: true}\<close>
  the offset is 2 and there are 3 items, so the formula gives \<open>ceil((3 - 4) / 1) = -1\<close>,
  while the loop builds no button.
\<close>

theorem pagination_is_safe_counterexample:
  "map_option spec_pagination_count (built carousel1_infinite_built) = Some (- 1) \<and>
   map_option (created_buttons \<circ> effects) (built carousel1_infinite_built) = Some [] \<and>
   map_option moveCallBacks (built carousel1_infinite_built) =
     Some [NavigationCb, PaginationCb []]"
proof -
  define s where "s = the (built carousel1_infinite_built)"
  have b: "built carousel1_infinite_built = Some s"
    unfolding s_def by code_simp
  have v: "items_length s = 3" "offset s = 2" "o_slidesToScroll (options s) = 1"
    "created_buttons (effects s) = []" "moveCallBacks s = [NavigationCb, PaginationCb []]"
    unfolding s_def by code_simp+
  have c: "spec_pagination_count s = - 1"
    unfolding spec_pagination_count_def v by (subst ceiling_divide_eq_div) simp
  show ?thesis
    by (simp add: b v c)
qed

subsection \<open>Autoplay timers\<close>

lemma autoplay_fields [simp]:
  "timers (autoplay s) = timers s @ [nextTimer s]"
  "nextTimer (autoplay s) = Suc (nextTimer s)"
  "intervalID (autoplay s) = Some (nextTimer s)"
  "options (autoplay s) = options s"
  by (simp_all add: autoplay_def)

lemma stopAutoplay_fields [simp]:
  "timers (stopAutoplay s) = (case intervalID s of None \<Rightarrow> timers s | Some t \<Rightarrow> removeAll t (timers s))"
  "nextTimer (stopAutoplay s) = nextTimer s"
  "intervalID (stopAutoplay s) = intervalID s"
  "options (stopAutoplay s) = options s"
  by (simp_all add: stopAutoplay_def split: option.splits)

text \<open>
  C5 fails on the code. With \<open>{autoplay: true}\<close> the constructor starts timer 0. A window
  \<open>focus\<close> event then starts timer 1 beside it; the following \<open>blur\<close> clears timer 1 only,
  and timer 0 can no longer be cleared. Likewise \<open>mouseover\<close>, \<open>blur\<close>, \<open>focus\<close>,
  \<open>mouseout\<close> leaves timers 1 and 2 running together.
\<close>

theorem autoplay_starts_second_timer:
  "map_option timers (built carousel3_autoplay_built) = Some [0] \<and>
   map_option timers (after carousel3_autoplay_built [Dispatch WindowFocus]) = Some [0, 1] \<and>
   map_option timers (after carousel3_autoplay_built [Dispatch WindowFocus, Dispatch WindowBlur])
     = Some [0] \<and>
   map_option intervalID
     (after carousel3_autoplay_built [Dispatch WindowFocus, Dispatch WindowBlur]) = Some (Some 1) \<and>
   map_option timers
     (after carousel3_autoplay_built
        [Dispatch MouseOver, Dispatch WindowBlur, Dispatch WindowFocus, Dispatch MouseOut])
     = Some [1, 2]"
proof -
  define s where "s = the (built carousel3_autoplay_built)"
  have b: "built carousel3_autoplay_built = Some s"
    unfolding s_def by code_simp
  have v: "timers s = [0]" "nextTimer s = 1" "intervalID s = Some 0" "o_autoplay (options s)"
    unfolding s_def by code_simp+
  show ?thesis
    by (simp add: b v after_def apply_operation_def dispatch_def)
qed

end
